theory Spec2Isabelle
  imports Main "HOL-Library.Word"
begin

section \<open>The virtual memory simulation of P6/simVM.c\<close>

text \<open>
  The simulation keeps one \<open>struct VM\<close> per handle. Its \<open>int\<close> fields hold sizes,
  indices and counters, modelled as natural numbers, and logical timestamps, modelled as
  integers; the value \<open>-1\<close> that the lookup functions return for "not found" is
  \<open>None\<close>. The arrays
  \<open>pvirt\<close>, \<open>ptime\<close>, \<open>dirty\<close> (one entry per physical frame) and \<open>ptlb\<close>,
  \<open>vtlb\<close>, \<open>tlbtime\<close> (one entry per TLB slot) are lists; \<open>dirty\<close> only ever holds
  0 or 1 and is tested for truth, so it is a list of booleans. Physical memory and the
  simulated disk are lists of 32-bit words, addressed by word index (the C code addresses
  them by byte, four bytes per word).

  Behaviour that is undefined in C is a value of type \<open>fault\<close>: a division by zero, a
  signed overflow (of the logical clock, or of a byte offset, which the code computes in
  \<open>int\<close> as \<open>index * pagesize * 4\<close>), an array index outside its allocation, and a
  page copy that leaves the disk or the memory array. The two word arrays are allocated
  with a size that the code computes in \<open>unsigned int\<close>, so the product wraps modulo
  \<open>2^32\<close>.
\<close>

type_synonym word32 = "32 word"

datatype fault =
    DivisionByZero
  | SignedOverflow
  | IndexOutOfBounds
  | DiskOutOfBounds
  | MemOutOfBounds

record VM =
  pagesize :: nat
  vpage :: nat
  ppage :: nat
  palg :: int
  pvirt :: "nat list"
  ptime :: "int list"
  dirty :: "bool list"
  tlb :: nat
  tlbalg :: int
  ptlb :: "nat list"
  vtlb :: "nat list"
  tlbtime :: "int list"
  rrp :: nat
  rrt :: nat
  timestamp :: int
  pc :: nat
  tc :: nat
  dc :: nat
  mem :: "word32 list"
  disk :: "word32 list"

subsection \<open>createVM\<close>

text \<open>
  The local variable \<open>model\<close> of \<open>createVM\<close> after its two initialisation loops
  (lines 104 to 120): every array comes zeroed from \<open>calloc\<close>, then frame \<open>i\<close> holds
  page \<open>i\<close> and TLB slot \<open>i\<close> maps page \<open>i\<close> to frame \<open>i\<close>. The sizes
  \<open>sizePM * pageSize\<close> and \<open>sizeVM * pageSize\<close> of the memory and of the disk are
  products of \<open>unsigned int\<close>.
\<close>

definition createVM_model :: "nat \<Rightarrow> nat \<Rightarrow> nat \<Rightarrow> nat \<Rightarrow> int \<Rightarrow> int \<Rightarrow> VM" where
  "createVM_model sizeVM sizePM pageSize sizeTLB pageReplAlg tlbReplAlg =
     \<lparr> pagesize = pageSize, vpage = sizeVM,
       ppage = sizePM, palg = pageReplAlg,
       pvirt = [0..<sizePM], ptime = replicate sizePM 0, dirty = replicate sizePM False,
       tlb = sizeTLB, tlbalg = tlbReplAlg,
       ptlb = [0..<sizeTLB], vtlb = [0..<sizeTLB], tlbtime = replicate sizeTLB 0,
       rrp = 0, rrt = 0, timestamp = 0,
       pc = 0, tc = 0, dc = 0,
       mem = replicate (nat ((int sizePM * int pageSize) mod 4294967296)) 0,
       disk = replicate (nat ((int sizeVM * int pageSize) mod 4294967296)) 0 \<rparr>"

text \<open>
  \<open>createVM\<close> returns the handle: a pointer to a copy of \<open>model\<close>. \<open>None\<close> stands
  for the \<open>NULL\<close> pointer. The function has no \<open>return NULL\<close> and no test of its
  parameters (allocation failure is outside the model).
\<close>

definition createVM :: "nat \<Rightarrow> nat \<Rightarrow> nat \<Rightarrow> nat \<Rightarrow> int \<Rightarrow> int \<Rightarrow> VM option" where
  "createVM sizeVM sizePM pageSize sizeTLB pageReplAlg tlbReplAlg =
     Some (createVM_model sizeVM sizePM pageSize sizeTLB pageReplAlg tlbReplAlg)"

subsection \<open>Lookups and marking\<close>

text \<open>
  Both lookups scan the indices \<open>0, 1, ...\<close> in ascending order and return at the
  first match; \<open>find\<close> over the index range is that loop.
\<close>

definition lookup_in_tlb_and_mark :: "VM \<Rightarrow> nat \<Rightarrow> VM \<times> nat option" where
  "lookup_in_tlb_and_mark model pte =
     (case find (\<lambda>i. vtlb model ! i = pte) [0..<tlb model] of
        Some i \<Rightarrow>
          (model\<lparr>tlbtime := (tlbtime model)[i := timestamp model]\<rparr>, Some (ptlb model ! i))
      | None \<Rightarrow> (model, None))"

definition lookup_in_mem :: "VM \<Rightarrow> nat \<Rightarrow> nat option" where
  "lookup_in_mem model pte = find (\<lambda>i. pvirt model ! i = pte) [0..<ppage model]"

text \<open>
  The returned pointer, as a word index into \<open>mem\<close>. The code adds the byte offsets
  \<open>index * pagesize * 4\<close> and \<open>add * 4\<close>, both computed in \<open>int\<close>, to the base.
\<close>

definition make_address :: "VM \<Rightarrow> nat \<Rightarrow> nat \<Rightarrow> fault + nat" where
  "make_address model index add =
     (if 2147483647 < int index * int (pagesize model) * 4 \<or> 2147483647 < int add * 4
      then Inl SignedOverflow
      else Inr (index * pagesize model + add))"

text \<open>
  \<open>mark\<close> writes \<open>dirty[pte]\<close> and \<open>ptime[pte]\<close>; its argument is a frame index that
  may come from the TLB, so the index is checked against the allocated size.
\<close>

definition mark :: "VM \<Rightarrow> nat \<Rightarrow> bool \<Rightarrow> fault + VM" where
  "mark model pte d =
     (if pte < ppage model then
        Inr (model\<lparr>dirty := (if d then (dirty model)[pte := True] else dirty model),
                   ptime := (ptime model)[pte := timestamp model]\<rparr>)
      else Inl IndexOutOfBounds)"

subsection \<open>Replacement policies\<close>

text \<open>
  The loop of \<open>minindex\<close> carries the pair \<open>(value, index)\<close>, starting from
  \<open>(2147483647, -1)\<close>.
\<close>

definition minindex_step :: "int list \<Rightarrow> nat \<Rightarrow> int \<times> nat option \<Rightarrow> int \<times> nat option" where
  "minindex_step p i vi = (if p ! i < fst vi then (p ! i, Some i) else vi)"

definition minindex :: "int list \<Rightarrow> nat \<Rightarrow> nat option" where
  "minindex p n = snd (fold (minindex_step p) [0..<n] (2147483647, None))"

definition choose_page :: "VM \<Rightarrow> fault + (VM \<times> nat option)" where
  "choose_page model =
     (if palg model = 0 then
        (if ppage model = 0 then Inl DivisionByZero
         else
           let model = model\<lparr>rrp := (rrp model + 1) mod ppage model\<rparr>
           in Inr (model, Some ((rrp model + ppage model - 1) mod ppage model)))
      else Inr (model, minindex (ptime model) (ppage model)))"

definition choose_tlb :: "VM \<Rightarrow> fault + (VM \<times> nat option)" where
  "choose_tlb model =
     (if tlbalg model = 0 then
        (if tlb model = 0 then Inl DivisionByZero
         else
           let model = model\<lparr>rrt := (rrt model + 1) mod tlb model\<rparr>
           in Inr (model, Some ((rrt model + tlb model - 1) mod tlb model)))
      else Inr (model, minindex (tlbtime model) (tlb model)))"

subsection \<open>TLB installation\<close>

definition addtlb :: "VM \<Rightarrow> nat \<Rightarrow> nat \<Rightarrow> fault + VM" where
  "addtlb model memi pte =
     (case choose_tlb model of
        Inl e \<Rightarrow> Inl e
      | Inr (model, None) \<Rightarrow> Inl IndexOutOfBounds
      | Inr (model, Some index) \<Rightarrow>
          Inr (model\<lparr>ptlb := (ptlb model)[index := memi],
                     vtlb := (vtlb model)[index := pte],
                     tlbtime := (tlbtime model)[index := timestamp model]\<rparr>))"

definition flushtlb :: "VM \<Rightarrow> nat \<Rightarrow> nat \<Rightarrow> fault + VM" where
  "flushtlb model memi pte =
     (case find (\<lambda>i. ptlb model ! i = memi) [0..<tlb model] of
        Some i \<Rightarrow> Inr (model\<lparr>vtlb := (vtlb model)[i := pte]\<rparr>)
      | None \<Rightarrow> addtlb model memi pte)"

subsection \<open>Address translation\<close>

text \<open>
  \<open>memcpy (dst + doff, src + soff, n)\<close> on word arrays, for a copy that stays inside
  both arrays; the callers check the bounds.
\<close>

definition copy_words :: "'a list \<Rightarrow> nat \<Rightarrow> 'a list \<Rightarrow> nat \<Rightarrow> nat \<Rightarrow> 'a list" where
  "copy_words dst doff src soff n =
     map (\<lambda>k. if doff \<le> k \<and> k < doff + n then src ! (soff + (k - doff)) else dst ! k)
       [0..<length dst]"

text \<open>
  Lines 220 to 236 of \<open>real_address\<close>: the page fault. The victim's page goes to its
  disk slot when the frame is dirty, the frame is given to \<open>pte\<close> and loaded from the
  disk slot of \<open>pte\<close>, then the TLB is updated and the frame marked. Each \<open>memcpy\<close>
  takes two byte offsets and a byte count computed in \<open>int\<close>.
\<close>

definition page_fault :: "VM \<Rightarrow> nat \<Rightarrow> nat \<Rightarrow> bool \<Rightarrow> fault + (VM \<times> nat)" where
  "page_fault model pte add d =
     (let model = model\<lparr>pc := pc model + 1\<rparr> in
      case choose_page model of
        Inl e \<Rightarrow> Inl e
      | Inr (model, None) \<Rightarrow> Inl IndexOutOfBounds
      | Inr (model, Some memi) \<Rightarrow>
          (let S = pagesize model in
           if dirty model ! memi \<and>
              (2147483647 < int (pvirt model ! memi) * int S * 4 \<or>
               2147483647 < int memi * int S * 4 \<or> 2147483647 < int S * 4)
             then Inl SignedOverflow
           else if dirty model ! memi \<and> length (disk model) < pvirt model ! memi * S + S
             then Inl DiskOutOfBounds
           else if dirty model ! memi \<and> length (mem model) < memi * S + S
             then Inl MemOutOfBounds
           else
             let model =
                   (if dirty model ! memi then
                      model\<lparr>dc := dc model + 1,
                            disk := copy_words (disk model) (pvirt model ! memi * S)
                                      (mem model) (memi * S) S\<rparr>
                    else model);
                 model = model\<lparr>pvirt := (pvirt model)[memi := pte],
                               ptime := (ptime model)[memi := timestamp model],
                               dirty := (dirty model)[memi := False]\<rparr>
             in
               if 2147483647 < int memi * int S * 4 \<or>
                  2147483647 < int (pvirt model ! memi) * int S * 4 \<or> 2147483647 < int S * 4
                 then Inl SignedOverflow
               else if length (mem model) < memi * S + S then Inl MemOutOfBounds
               else if length (disk model) < pvirt model ! memi * S + S then Inl DiskOutOfBounds
               else
                 let model = model\<lparr>mem := copy_words (mem model) (memi * S)
                                             (disk model) (pvirt model ! memi * S) S\<rparr>
                 in case flushtlb model memi pte of
                      Inl e \<Rightarrow> Inl e
                    | Inr model \<Rightarrow>
                        (case mark model memi d of
                           Inl e \<Rightarrow> Inl e
                         | Inr model \<Rightarrow>
                             (case make_address model memi add of
                                Inl e \<Rightarrow> Inl e
                              | Inr p \<Rightarrow> Inr (model, p)))))"

definition real_address :: "VM \<Rightarrow> nat \<Rightarrow> bool \<Rightarrow> fault + (VM \<times> nat)" where
  "real_address model address d =
     (if 2147483647 \<le> timestamp model then Inl SignedOverflow
      else
        let model = model\<lparr>timestamp := timestamp model + 1\<rparr> in
        if pagesize model = 0 then Inl DivisionByZero
        else
          let pte = address div pagesize model;
              add = address mod pagesize model
          in case lookup_in_tlb_and_mark model pte of
               (model, Some memi) \<Rightarrow>
                 (case mark model memi d of
                    Inl e \<Rightarrow> Inl e
                  | Inr model \<Rightarrow>
                      (case make_address model memi add of
                         Inl e \<Rightarrow> Inl e
                       | Inr p \<Rightarrow> Inr (model, p)))
             | (model, None) \<Rightarrow>
                 (let model = model\<lparr>tc := tc model + 1\<rparr> in
                  case lookup_in_mem model pte of
                    Some memi \<Rightarrow>
                      (case mark model memi d of
                         Inl e \<Rightarrow> Inl e
                       | Inr model \<Rightarrow>
                           (case addtlb model memi pte of
                              Inl e \<Rightarrow> Inl e
                            | Inr model \<Rightarrow>
                                (case make_address model memi add of
                                   Inl e \<Rightarrow> Inl e
                                 | Inr p \<Rightarrow> Inr (model, p))))
                  | None \<Rightarrow> page_fault model pte add d))"

subsection \<open>Word accessors\<close>

definition read_address :: "VM \<Rightarrow> nat \<Rightarrow> fault + (VM \<times> nat)" where
  "read_address model address = real_address model address False"

definition write_address :: "VM \<Rightarrow> nat \<Rightarrow> word32 \<Rightarrow> fault + VM" where
  "write_address model address v =
     (case real_address model address True of
        Inl e \<Rightarrow> Inl e
      | Inr (model, p) \<Rightarrow>
          if p < length (mem model) then Inr (model\<lparr>mem := (mem model)[p := v]\<rparr>)
          else Inl MemOutOfBounds)"

text \<open>
  \<open>readInt\<close> and \<open>readFloat\<close> load the same four bytes, \<open>writeInt\<close> and
  \<open>writeFloat\<close> store them; the model keeps the bit pattern.
\<close>

definition readInt :: "VM \<Rightarrow> nat \<Rightarrow> fault + (VM \<times> word32)" where
  "readInt handle address =
     (case read_address handle address of
        Inl e \<Rightarrow> Inl e
      | Inr (model, p) \<Rightarrow>
          if p < length (mem model) then Inr (model, mem model ! p)
          else Inl MemOutOfBounds)"

definition readFloat :: "VM \<Rightarrow> nat \<Rightarrow> fault + (VM \<times> word32)" where
  "readFloat handle address = readInt handle address"

definition writeInt :: "VM \<Rightarrow> nat \<Rightarrow> word32 \<Rightarrow> fault + VM" where
  "writeInt handle address v = write_address handle address v"

definition writeFloat :: "VM \<Rightarrow> nat \<Rightarrow> word32 \<Rightarrow> fault + VM" where
  "writeFloat handle address v = write_address handle address v"

subsection \<open>Client programs\<close>

text \<open>A client is a sequence of word reads and writes on one handle.\<close>

datatype access = Read nat | Write nat word32

fun addr_of :: "access \<Rightarrow> nat" where
  "addr_of (Read a) = a"
| "addr_of (Write a v) = a"

fun exec :: "VM \<Rightarrow> access \<Rightarrow> fault + VM" where
  "exec s (Read a) = (case readInt s a of Inl e \<Rightarrow> Inl e | Inr (s', v) \<Rightarrow> Inr s')"
| "exec s (Write a v) = writeInt s a v"

fun run :: "VM \<Rightarrow> access list \<Rightarrow> fault + VM" where
  "run s [] = Inr s"
| "run s (x # xs) = (case exec s x of Inl e \<Rightarrow> Inl e | Inr s' \<Rightarrow> run s' xs)"

subsection \<open>Observations\<close>

text \<open>The three statistics that \<open>printStatistics\<close> prints, in its order.\<close>

definition counters :: "VM \<Rightarrow> nat \<times> nat \<times> nat" where
  "counters s = (pc s, tc s, dc s)"

text \<open>What an observer sees in the state that a client program reaches.\<close>

definition observe_after :: "VM \<Rightarrow> access list \<Rightarrow> (VM \<Rightarrow> 'a) \<Rightarrow> 'a option" where
  "observe_after s xs obs = (case run s xs of Inl e \<Rightarrow> None | Inr s' \<Rightarrow> Some (obs s'))"

text \<open>The word a read returns, without the state.\<close>

definition value_of :: "fault + (VM \<times> word32) \<Rightarrow> word32 option" where
  "value_of r = (case r of Inl e \<Rightarrow> None | Inr (s, w) \<Rightarrow> Some w)"

subsection \<open>Auxiliary notions\<close>

text \<open>
  The decision of a replacement policy over \<open>n\<close> slots: \<open>policy_pick alg n cursor stamps
  k cursor'\<close> says that the policy \<open>alg\<close> (0 is round-robin, anything else LRU) with the
  given cursor and timestamps picks slot \<open>k\<close> and leaves the cursor at \<open>cursor'\<close>.
\<close>

definition policy_pick :: "int \<Rightarrow> nat \<Rightarrow> nat \<Rightarrow> int list \<Rightarrow> nat \<Rightarrow> nat \<Rightarrow> bool" where
  "policy_pick alg n cursor stamps k cursor' \<longleftrightarrow>
     (if alg = 0 then 0 < n \<and> cursor' = (cursor + 1) mod n \<and> k = cursor mod n
      else minindex stamps n = Some k \<and> cursor' = cursor)"

text \<open>The disk after the victim frame \<open>f\<close> has been written back, if it was dirty.\<close>

definition fault_disk :: "VM \<Rightarrow> nat \<Rightarrow> word32 list" where
  "fault_disk s f =
     (if dirty s ! f
      then copy_words (disk s) (pvirt s ! f * pagesize s) (mem s) (f * pagesize s) (pagesize s)
      else disk s)"

text \<open>Every table has the size it was allocated with.\<close>

definition wf :: "VM \<Rightarrow> bool" where
  "wf s \<longleftrightarrow>
     length (pvirt s) = ppage s \<and> length (ptime s) = ppage s \<and> length (dirty s) = ppage s \<and>
     length (ptlb s) = tlb s \<and> length (vtlb s) = tlb s \<and> length (tlbtime s) = tlb s"

text \<open>
  The memory holds \<open>ppage\<close> frames and the disk \<open>vpage\<close> page slots, there are no more
  frames than pages, and the byte offset of every word of the disk fits in an \<open>int\<close>.
\<close>

definition sized :: "VM \<Rightarrow> bool" where
  "sized s \<longleftrightarrow>
     length (mem s) = ppage s * pagesize s \<and> length (disk s) = vpage s * pagesize s \<and>
     ppage s \<le> vpage s \<and> int (vpage s) * int (pagesize s) * 4 \<le> 2147483647"

text \<open>
  \<open>lowest_min_index p n k\<close>: among the first \<open>n\<close> entries of \<open>p\<close>, slot \<open>k\<close> holds
  the minimum and no slot before it does.
\<close>

definition lowest_min_index :: "int list \<Rightarrow> nat \<Rightarrow> nat \<Rightarrow> bool" where
  "lowest_min_index p n k \<longleftrightarrow> k < n \<and> (\<forall>i<n. p ! k \<le> p ! i) \<and> (\<forall>i<k. p ! k < p ! i)"


text \<open>
  The TLB agrees with the page table: every slot points at a frame that holds the slot's
  page, no two slots point at the same frame, and no page is in two frames.
\<close>

definition coherent :: "VM \<Rightarrow> bool" where
  "coherent s \<longleftrightarrow>
     (\<forall>i<tlb s. ptlb s ! i < ppage s \<and> pvirt s ! (ptlb s ! i) = vtlb s ! i) \<and>
     distinct (ptlb s) \<and> distinct (pvirt s)"

text \<open>
  A state in which the TLB still holds its initial translations for the pages below
  \<open>T\<close> and no miss, fault or disk write has been counted.
\<close>

definition warm :: "nat \<Rightarrow> VM \<Rightarrow> bool" where
  "warm T s \<longleftrightarrow>
     wf s \<and> tlb s = T \<and> T \<le> ppage s \<and> 0 < pagesize s \<and>
     length (mem s) = ppage s * pagesize s \<and>
     int (ppage s) * int (pagesize s) * 4 \<le> 2147483647 \<and>
     ptlb s = [0..<T] \<and> vtlb s = [0..<T] \<and> tc s = 0 \<and> pc s = 0 \<and> dc s = 0"

text \<open>
  The disk backs the memory: every resident page is a page of the virtual memory, and a
  frame that is not dirty holds what the disk slot of its page holds.
\<close>

definition disk_ok :: "VM \<Rightarrow> bool" where
  "disk_ok s \<longleftrightarrow>
     (\<forall>f<ppage s. pvirt s ! f < vpage s) \<and>
     (\<forall>f<ppage s. \<not> dirty s ! f \<longrightarrow>
        (\<forall>k<pagesize s. mem s ! (f * pagesize s + k) =
                         disk s ! (pvirt s ! f * pagesize s + k)))"

text \<open>No timestamp is ahead of the logical clock.\<close>

definition stamps_ok :: "VM \<Rightarrow> bool" where
  "stamps_ok s \<longleftrightarrow>
     (\<forall>f<ppage s. ptime s ! f \<le> timestamp s) \<and> (\<forall>i<tlb s. tlbtime s ! i \<le> timestamp s)"

text \<open>
  The word at virtual address \<open>b\<close>: in the frame of its page when the page is
  resident, in its disk slot otherwise.
\<close>

definition vword :: "VM \<Rightarrow> nat \<Rightarrow> word32" where
  "vword s b =
     (case lookup_in_mem s (b div pagesize s) of
        Some f \<Rightarrow> mem s ! (f * pagesize s + b mod pagesize s)
      | None \<Rightarrow> disk s ! b)"

text \<open>The page is resident and its frame is dirty.\<close>

definition page_dirty :: "VM \<Rightarrow> nat \<Rightarrow> bool" where
  "page_dirty s p = (case lookup_in_mem s p of Some f \<Rightarrow> dirty s ! f | None \<Rightarrow> False)"

text \<open>The invariant of the simulation.\<close>

definition consistent :: "VM \<Rightarrow> bool" where
  "consistent s \<longleftrightarrow> wf s \<and> sized s \<and> coherent s \<and> disk_ok s \<and> stamps_ok s"

text \<open>The access stores a word at address \<open>a\<close>.\<close>

fun writes_to :: "nat \<Rightarrow> access \<Rightarrow> bool" where
  "writes_to a (Read b) = False"
| "writes_to a (Write b v) = (a = b)"

section \<open>The functions, one by one\<close>

lemma find_upt_Some:
  "find P [0..<n] = Some i \<longleftrightarrow> i < n \<and> P i \<and> (\<forall>j<i. \<not> P j)"
  by (auto simp: find_Some_iff)

lemma find_upt_None: "find P [0..<n] = None \<longleftrightarrow> (\<forall>i<n. \<not> P i)"
  by (auto simp: find_None_iff)

lemma lookup_in_tlb_and_mark_Some:
  "lookup_in_tlb_and_mark s pte = (s', Some f) \<Longrightarrow>
     (\<exists>i<tlb s. vtlb s ! i = pte \<and> (\<forall>j<i. vtlb s ! j \<noteq> pte) \<and> f = ptlb s ! i \<and>
        s' = s\<lparr>tlbtime := (tlbtime s)[i := timestamp s]\<rparr>)"
  by (auto simp: lookup_in_tlb_and_mark_def find_upt_Some find_upt_None split: option.splits)

lemma lookup_in_tlb_and_mark_None:
  "lookup_in_tlb_and_mark s pte = (s', None) \<longleftrightarrow> (\<forall>i<tlb s. vtlb s ! i \<noteq> pte) \<and> s' = s"
  by (auto simp: lookup_in_tlb_and_mark_def find_upt_Some find_upt_None split: option.splits)

lemma lookup_in_mem_Some:
  "lookup_in_mem s pte = Some f \<longleftrightarrow> f < ppage s \<and> pvirt s ! f = pte \<and> (\<forall>j<f. pvirt s ! j \<noteq> pte)"
  by (simp add: lookup_in_mem_def find_upt_Some)

lemma lookup_in_mem_None:
  "lookup_in_mem s pte = None \<longleftrightarrow> (\<forall>f<ppage s. pvirt s ! f \<noteq> pte)"
  by (simp add: lookup_in_mem_def find_upt_None)

lemma mark_Inr:
  "mark s f d = Inr s' \<longleftrightarrow>
     f < ppage s \<and>
     s' = s\<lparr>dirty := (if d then (dirty s)[f := True] else dirty s),
            ptime := (ptime s)[f := timestamp s]\<rparr>"
  by (auto simp: mark_def)

lemma minindex_fold:
  "fold (minindex_step p) [0..<n] (v0, None) = (v, r) \<Longrightarrow>
     (case r of
        None \<Rightarrow> v = v0 \<and> (\<forall>i<n. v0 \<le> p ! i)
      | Some j \<Rightarrow> j < n \<and> v = p ! j \<and> p ! j < v0 \<and> (\<forall>i<j. p ! j < p ! i) \<and> (\<forall>i<n. p ! j \<le> p ! i))"
proof (induction n arbitrary: v r)
  case 0
  then show ?case by simp
next
  case (Suc n)
  obtain v1 r1 where f: "fold (minindex_step p) [0..<n] (v0, None) = (v1, r1)"
    by (cases "fold (minindex_step p) [0..<n] (v0, None)")
  note IH = Suc.IH [OF f]
  from Suc.prems f have st: "minindex_step p n (v1, r1) = (v, r)" by simp
  show ?case
  proof (cases "p ! n < v1")
    case True
    with st have r: "r = Some n" "v = p ! n" by (auto simp: minindex_step_def)
    show ?thesis
    proof (cases r1)
      case None
      with IH True r show ?thesis by (auto simp: less_Suc_eq)
    next
      case (Some j)
      with IH True r show ?thesis by (auto simp: less_Suc_eq)
    qed
  next
    case False
    with st have r: "r = r1" "v = v1" by (auto simp: minindex_step_def)
    show ?thesis
    proof (cases r1)
      case None
      with IH False r show ?thesis by (auto simp: less_Suc_eq)
    next
      case (Some j)
      with IH False r show ?thesis by (auto simp: less_Suc_eq)
    qed
  qed
qed

lemma minindex_Some:
  "minindex p n = Some j \<longleftrightarrow>
     j < n \<and> p ! j < 2147483647 \<and> (\<forall>i<j. p ! j < p ! i) \<and> (\<forall>i<n. p ! j \<le> p ! i)"
proof
  assume a: "minindex p n = Some j"
  obtain v r where f: "fold (minindex_step p) [0..<n] (2147483647, None) = (v, r)"
    by (cases "fold (minindex_step p) [0..<n] (2147483647, None)")
  with a have "r = Some j" by (simp add: minindex_def)
  with minindex_fold [OF f] show "j < n \<and> p ! j < 2147483647 \<and> (\<forall>i<j. p ! j < p ! i) \<and> (\<forall>i<n. p ! j \<le> p ! i)"
    by simp
next
  assume b: "j < n \<and> p ! j < 2147483647 \<and> (\<forall>i<j. p ! j < p ! i) \<and> (\<forall>i<n. p ! j \<le> p ! i)"
  obtain v r where f: "fold (minindex_step p) [0..<n] (2147483647, None) = (v, r)"
    by (cases "fold (minindex_step p) [0..<n] (2147483647, None)")
  show "minindex p n = Some j"
  proof (cases r)
    case None
    with minindex_fold [OF f] b show ?thesis by force
  next
    case (Some k)
    with minindex_fold [OF f]
    have k: "k < n" "\<forall>i<k. p ! k < p ! i" "\<forall>i<n. p ! k \<le> p ! i" by simp_all
    have "k = j"
    proof (rule ccontr)
      assume "k \<noteq> j"
      then consider "k < j" | "j < k" by linarith
      then show False
      proof cases
        case 1
        with b have "p ! j < p ! k" by simp
        moreover from k b have "p ! k \<le> p ! j" by simp
        ultimately show False by simp
      next
        case 2
        with k have "p ! k < p ! j" by simp
        moreover from k b have "p ! j \<le> p ! k" by simp
        ultimately show False by simp
      qed
    qed
    with Some f show ?thesis by (simp add: minindex_def)
  qed
qed

lemma minindex_None:
  "minindex p n = None \<longleftrightarrow> (\<forall>i<n. 2147483647 \<le> p ! i)"
proof -
  obtain v r where f: "fold (minindex_step p) [0..<n] (2147483647, None) = (v, r)"
    by (cases "fold (minindex_step p) [0..<n] (2147483647, None)")
  show ?thesis
  proof (cases r)
    case None
    with minindex_fold [OF f] f show ?thesis by (simp add: minindex_def)
  next
    case (Some k)
    with minindex_fold [OF f] f show ?thesis by (auto simp: minindex_def)
  qed
qed

lemma rr_victim: "0 < n \<Longrightarrow> ((c + 1) mod n + n - 1) mod n = c mod (n::nat)"
proof -
  assume n: "0 < n"
  show ?thesis
  proof (cases "Suc (c mod n) = n")
    case True
    then have "(c + 1) mod n = 0" by (simp add: mod_Suc)
    with True n show ?thesis by auto
  next
    case False
    then have "(c + 1) mod n = Suc (c mod n)" by (simp add: mod_Suc)
    then show ?thesis by simp
  qed
qed

lemma rr_victim_Suc: "0 < n \<Longrightarrow> (Suc c mod n + n - Suc 0) mod n = c mod (n::nat)"
  using rr_victim [of n c] by simp

lemma choose_page_Inr:
  "choose_page s = Inr (s', r) \<longleftrightarrow>
     (if palg s = 0
      then 0 < ppage s \<and> s' = s\<lparr>rrp := (rrp s + 1) mod ppage s\<rparr> \<and> r = Some (rrp s mod ppage s)
      else s' = s \<and> minindex (ptime s) (ppage s) = r)"
  by (auto simp: choose_page_def Let_def rr_victim_Suc)

lemma choose_tlb_Inr:
  "choose_tlb s = Inr (s', r) \<longleftrightarrow>
     (if tlbalg s = 0
      then 0 < tlb s \<and> s' = s\<lparr>rrt := (rrt s + 1) mod tlb s\<rparr> \<and> r = Some (rrt s mod tlb s)
      else s' = s \<and> minindex (tlbtime s) (tlb s) = r)"
  by (auto simp: choose_tlb_def Let_def rr_victim_Suc)

lemma policy_pick_less: "policy_pick alg n c ts k c' \<Longrightarrow> k < n"
  by (auto simp: policy_pick_def minindex_Some split: if_splits)

lemma choose_page_SomeD:
  "choose_page s = Inr (s', Some f) \<Longrightarrow>
     policy_pick (palg s) (ppage s) (rrp s) (ptime s) f (rrp s') \<and> s' = s\<lparr>rrp := rrp s'\<rparr>"
  by (auto simp: choose_page_Inr policy_pick_def split: if_splits)

lemma choose_tlb_SomeD:
  "choose_tlb s = Inr (s', Some k) \<Longrightarrow>
     policy_pick (tlbalg s) (tlb s) (rrt s) (tlbtime s) k (rrt s') \<and> s' = s\<lparr>rrt := rrt s'\<rparr>"
  by (auto simp: choose_tlb_Inr policy_pick_def split: if_splits)

lemma choose_page_pick:
  "policy_pick (palg s) (ppage s) (rrp s) (ptime s) f r \<Longrightarrow>
     choose_page s = Inr (s\<lparr>rrp := r\<rparr>, Some f)"
  by (auto simp: choose_page_Inr policy_pick_def split: if_splits)

lemma choose_tlb_pick:
  "policy_pick (tlbalg s) (tlb s) (rrt s) (tlbtime s) k r \<Longrightarrow>
     choose_tlb s = Inr (s\<lparr>rrt := r\<rparr>, Some k)"
  by (auto simp: choose_tlb_Inr policy_pick_def split: if_splits)

lemma addtlb_Inr:
  "addtlb s f pte = Inr s' \<longleftrightarrow>
     (\<exists>s1 k. choose_tlb s = Inr (s1, Some k) \<and>
        s' = s1\<lparr>ptlb := (ptlb s1)[k := f], vtlb := (vtlb s1)[k := pte],
                tlbtime := (tlbtime s1)[k := timestamp s1]\<rparr>)"
  by (auto simp: addtlb_def split: sum.splits option.splits)

lemma addtlbD:
  assumes "addtlb s f pte = Inr s'"
  obtains k r where "k < tlb s" "policy_pick (tlbalg s) (tlb s) (rrt s) (tlbtime s) k r"
    "s' = s\<lparr>rrt := r, ptlb := (ptlb s)[k := f], vtlb := (vtlb s)[k := pte],
             tlbtime := (tlbtime s)[k := timestamp s]\<rparr>"
proof -
  from assms obtain s1 k where c: "choose_tlb s = Inr (s1, Some k)"
    and s': "s' = s1\<lparr>ptlb := (ptlb s1)[k := f], vtlb := (vtlb s1)[k := pte],
                tlbtime := (tlbtime s1)[k := timestamp s1]\<rparr>"
    by (auto simp: addtlb_Inr)
  from choose_tlb_SomeD [OF c]
  have 1: "policy_pick (tlbalg s) (tlb s) (rrt s) (tlbtime s) k (rrt s1)"
    and s1: "s1 = s\<lparr>rrt := rrt s1\<rparr>" by simp_all
  from 1 have k: "k < tlb s" by (rule policy_pick_less)
  define r where "r = rrt s1"
  note s1 = s1 [folded r_def] and 1 = 1 [folded r_def]
  have "s' = s\<lparr>rrt := r, ptlb := (ptlb s)[k := f], vtlb := (vtlb s)[k := pte],
             tlbtime := (tlbtime s)[k := timestamp s]\<rparr>"
    unfolding s' s1 by simp
  with k 1 show ?thesis by (rule that)
qed

lemma flushtlbD:
  assumes "flushtlb s f pte = Inr s'"
  obtains (inplace) i where "i < tlb s" "ptlb s ! i = f" "\<forall>j<i. ptlb s ! j \<noteq> f"
      "s' = s\<lparr>vtlb := (vtlb s)[i := pte]\<rparr>"
  | (added) "\<forall>i<tlb s. ptlb s ! i \<noteq> f" "addtlb s f pte = Inr s'"
  using assms
  by (auto simp: flushtlb_def find_upt_Some find_upt_None split: option.splits)

lemma length_copy_words [simp]: "length (copy_words dst doff src soff n) = length dst"
  by (simp add: copy_words_def)

lemma nth_copy_words:
  "k < length dst \<Longrightarrow>
     copy_words dst doff src soff n ! k =
       (if doff \<le> k \<and> k < doff + n then src ! (soff + (k - doff)) else dst ! k)"
  by (simp add: copy_words_def)

lemma choose_page_pc:
  "choose_page (s\<lparr>pc := x\<rparr>) =
     (case choose_page s of Inl e \<Rightarrow> Inl e | Inr (s1, r) \<Rightarrow> Inr (s1\<lparr>pc := x\<rparr>, r))"
  by (simp add: choose_page_def Let_def)

lemma length_fault_disk [simp]: "length (fault_disk s f) = length (disk s)"
  by (simp add: fault_disk_def)

lemma make_address_Inr:
  "make_address s f off = Inr p \<longleftrightarrow>
     int f * int (pagesize s) * 4 \<le> 2147483647 \<and> int off * 4 \<le> 2147483647 \<and>
     p = f * pagesize s + off"
  by (auto simp: make_address_def)

lemma page_faultD:
  assumes pf: "page_fault s pte off d = Inr (s', idx)"
    and len: "length (pvirt s) = ppage s"
  obtains f r k r2 tt where
    "policy_pick (palg s) (ppage s) (rrp s) (ptime s) f r"
    "f < ppage s"
    "dirty s ! f \<longrightarrow> pvirt s ! f * pagesize s + pagesize s \<le> length (disk s)"
    "f * pagesize s + pagesize s \<le> length (mem s)"
    "pte * pagesize s + pagesize s \<le> length (disk s)"
    "k < tlb s"
    "(ptlb s ! k = f \<and> (\<forall>j<k. ptlb s ! j \<noteq> f) \<and> r2 = rrt s \<and> tt = tlbtime s) \<or>
     ((\<forall>i<tlb s. ptlb s ! i \<noteq> f) \<and> policy_pick (tlbalg s) (tlb s) (rrt s) (tlbtime s) k r2 \<and>
      tt = (tlbtime s)[k := timestamp s])"
    "s' = s\<lparr>pc := pc s + 1, rrp := r,
             dc := (if dirty s ! f then dc s + 1 else dc s),
             disk := fault_disk s f,
             pvirt := (pvirt s)[f := pte],
             ptime := (ptime s)[f := timestamp s],
             dirty := (dirty s)[f := d],
             mem := copy_words (mem s) (f * pagesize s) (fault_disk s f) (pte * pagesize s)
                      (pagesize s),
             rrt := r2, ptlb := (ptlb s)[k := f], vtlb := (vtlb s)[k := pte],
             tlbtime := tt\<rparr>"
    "idx = f * pagesize s + off"
    "int f * int (pagesize s) * 4 \<le> 2147483647 \<and>
     int pte * int (pagesize s) * 4 \<le> 2147483647 \<and> int (pagesize s) * 4 \<le> 2147483647 \<and>
     int off * 4 \<le> 2147483647 \<and>
     (dirty s ! f \<longrightarrow> int (pvirt s ! f) * int (pagesize s) * 4 \<le> 2147483647)"
proof -
  from pf obtain s1 f where cp: "choose_page s = Inr (s1, Some f)"
    by (auto simp: page_fault_def Let_def choose_page_pc split: sum.splits option.splits)
  from choose_page_SomeD [OF cp]
  have pick: "policy_pick (palg s) (ppage s) (rrp s) (ptime s) f (rrp s1)"
    and s1: "s1 = s\<lparr>rrp := rrp s1\<rparr>" by simp_all
  from pick have f: "f < ppage s" by (rule policy_pick_less)
  define r where "r = rrp s1"
  note s1 = s1 [folded r_def] and pick = pick [folded r_def]
  have cp': "choose_page s = Inr (s\<lparr>rrp := r\<rparr>, Some f)" using cp s1 by simp
  define S where "S = pagesize s"
  define dk where "dk = fault_disk s f"
  define s3 where "s3 = s\<lparr>rrp := r, pc := pc s + 1,
             dc := (if dirty s ! f then dc s + 1 else dc s),
             disk := dk,
             pvirt := (pvirt s)[f := pte],
             ptime := (ptime s)[f := timestamp s],
             dirty := (dirty s)[f := False],
             mem := copy_words (mem s) (f * S) dk (pte * S) S\<rparr>"
  have nth: "(pvirt s)[f := pte] ! f = pte" using f len by simp
  from pf cp' nth have b1: "dirty s ! f \<longrightarrow> pvirt s ! f * S + S \<le> length (disk s)"
    and b2: "f * S + S \<le> length (mem s)"
    and b3: "pte * S + S \<le> length (disk s)"
    and o1: "int f * int S * 4 \<le> 2147483647" "int pte * int S * 4 \<le> 2147483647"
      "int S * 4 \<le> 2147483647"
      "dirty s ! f \<longrightarrow> int (pvirt s ! f) * int S * 4 \<le> 2147483647"
    by (auto simp: page_fault_def Let_def choose_page_pc S_def split: if_splits)
  from pf cp' nth b1 b2 b3 o1 obtain s4 where
    fl: "flushtlb s3 f pte = Inr s4" and mk: "mark s4 f d = Inr s'"
    and idx: "make_address s' f off = Inr idx"
    by (auto simp: page_fault_def Let_def choose_page_pc S_def s3_def dk_def fault_disk_def
        split: if_splits sum.splits)
  from mk have s': "s' = s4\<lparr>dirty := (if d then (dirty s4)[f := True] else dirty s4),
            ptime := (ptime s4)[f := timestamp s4]\<rparr>"
    by (simp add: mark_Inr)
  from fl show ?thesis
  proof (cases rule: flushtlbD)
    case (inplace i)
    have "s' = s\<lparr>pc := pc s + 1, rrp := r,
             dc := (if dirty s ! f then dc s + 1 else dc s),
             disk := fault_disk s f,
             pvirt := (pvirt s)[f := pte],
             ptime := (ptime s)[f := timestamp s],
             dirty := (dirty s)[f := d],
             mem := copy_words (mem s) (f * pagesize s) (fault_disk s f) (pte * pagesize s)
                      (pagesize s),
             rrt := rrt s, ptlb := (ptlb s)[i := f], vtlb := (vtlb s)[i := pte],
             tlbtime := tlbtime s\<rparr>"
      unfolding s' inplace(4) using inplace(2)
      by (intro VM.equality) (auto simp: s3_def S_def dk_def)
    moreover have "idx = f * pagesize s + off \<and> int off * 4 \<le> 2147483647"
      using idx inplace(4) unfolding s' by (simp add: make_address_Inr s3_def)
    ultimately show ?thesis
      using that [of f r i "rrt s" "tlbtime s"] pick f b1 b2 b3 o1 inplace(1,2,3)
      by (simp add: s3_def S_def)
  next
    case added
    from added(2) obtain k r2 where k: "k < tlb s3"
      and pk: "policy_pick (tlbalg s3) (tlb s3) (rrt s3) (tlbtime s3) k r2"
      and s4: "s4 = s3\<lparr>rrt := r2, ptlb := (ptlb s3)[k := f], vtlb := (vtlb s3)[k := pte],
             tlbtime := (tlbtime s3)[k := timestamp s3]\<rparr>"
      by (rule addtlbD)
    have "s' = s\<lparr>pc := pc s + 1, rrp := r,
             dc := (if dirty s ! f then dc s + 1 else dc s),
             disk := fault_disk s f,
             pvirt := (pvirt s)[f := pte],
             ptime := (ptime s)[f := timestamp s],
             dirty := (dirty s)[f := d],
             mem := copy_words (mem s) (f * pagesize s) (fault_disk s f) (pte * pagesize s)
                      (pagesize s),
             rrt := r2, ptlb := (ptlb s)[k := f], vtlb := (vtlb s)[k := pte],
             tlbtime := (tlbtime s)[k := timestamp s]\<rparr>"
      unfolding s' s4 by (intro VM.equality) (auto simp: s3_def S_def dk_def)
    moreover have "idx = f * pagesize s + off \<and> int off * 4 \<le> 2147483647"
      using idx unfolding s' s4 by (simp add: make_address_Inr s3_def)
    ultimately show ?thesis
      using that [of f r k r2 "(tlbtime s)[k := timestamp s]"] pick f b1 b2 b3 o1 k pk added(1)
      by (simp add: s3_def S_def)
  qed
qed

lemma real_addressE:
  assumes ra: "real_address s a d = Inr (s', idx)"
    and len: "length (pvirt s) = ppage s"
  obtains
    (hit) i where
      "timestamp s < 2147483647" "0 < pagesize s"
      "i < tlb s" "vtlb s ! i = a div pagesize s" "\<forall>j<i. vtlb s ! j \<noteq> a div pagesize s"
      "ptlb s ! i < ppage s"
      "s' = s\<lparr>timestamp := timestamp s + 1,
               tlbtime := (tlbtime s)[i := timestamp s + 1],
               dirty := (if d then (dirty s)[ptlb s ! i := True] else dirty s),
               ptime := (ptime s)[ptlb s ! i := timestamp s + 1]\<rparr>"
      "idx = ptlb s ! i * pagesize s + a mod pagesize s"
      "int (ptlb s ! i) * int (pagesize s) * 4 \<le> 2147483647 \<and>
       int (a mod pagesize s) * 4 \<le> 2147483647"
  | (resident) f k r2 where
      "timestamp s < 2147483647" "0 < pagesize s"
      "\<forall>i<tlb s. vtlb s ! i \<noteq> a div pagesize s"
      "f < ppage s" "pvirt s ! f = a div pagesize s" "\<forall>j<f. pvirt s ! j \<noteq> a div pagesize s"
      "k < tlb s" "policy_pick (tlbalg s) (tlb s) (rrt s) (tlbtime s) k r2"
      "s' = s\<lparr>timestamp := timestamp s + 1, tc := tc s + 1,
               dirty := (if d then (dirty s)[f := True] else dirty s),
               ptime := (ptime s)[f := timestamp s + 1],
               rrt := r2, ptlb := (ptlb s)[k := f], vtlb := (vtlb s)[k := a div pagesize s],
               tlbtime := (tlbtime s)[k := timestamp s + 1]\<rparr>"
      "idx = f * pagesize s + a mod pagesize s"
      "int f * int (pagesize s) * 4 \<le> 2147483647 \<and> int (a mod pagesize s) * 4 \<le> 2147483647"
  | (fault) f r k r2 tt where
      "timestamp s < 2147483647" "0 < pagesize s"
      "\<forall>i<tlb s. vtlb s ! i \<noteq> a div pagesize s"
      "\<forall>f<ppage s. pvirt s ! f \<noteq> a div pagesize s"
      "policy_pick (palg s) (ppage s) (rrp s) (ptime s) f r"
      "f < ppage s"
      "dirty s ! f \<longrightarrow> pvirt s ! f * pagesize s + pagesize s \<le> length (disk s)"
      "f * pagesize s + pagesize s \<le> length (mem s)"
      "a div pagesize s * pagesize s + pagesize s \<le> length (disk s)"
      "k < tlb s"
      "(ptlb s ! k = f \<and> (\<forall>j<k. ptlb s ! j \<noteq> f) \<and> r2 = rrt s \<and> tt = tlbtime s) \<or>
       ((\<forall>i<tlb s. ptlb s ! i \<noteq> f) \<and>
        policy_pick (tlbalg s) (tlb s) (rrt s) (tlbtime s) k r2 \<and>
        tt = (tlbtime s)[k := timestamp s + 1])"
      "s' = s\<lparr>timestamp := timestamp s + 1, tc := tc s + 1, pc := pc s + 1, rrp := r,
               dc := (if dirty s ! f then dc s + 1 else dc s),
               disk := fault_disk s f,
               pvirt := (pvirt s)[f := a div pagesize s],
               ptime := (ptime s)[f := timestamp s + 1],
               dirty := (dirty s)[f := d],
               mem := copy_words (mem s) (f * pagesize s) (fault_disk s f)
                        (a div pagesize s * pagesize s) (pagesize s),
               rrt := r2, ptlb := (ptlb s)[k := f], vtlb := (vtlb s)[k := a div pagesize s],
               tlbtime := tt\<rparr>"
      "idx = f * pagesize s + a mod pagesize s"
      "int f * int (pagesize s) * 4 \<le> 2147483647 \<and>
       int (a div pagesize s) * int (pagesize s) * 4 \<le> 2147483647 \<and>
       int (pagesize s) * 4 \<le> 2147483647 \<and> int (a mod pagesize s) * 4 \<le> 2147483647 \<and>
       (dirty s ! f \<longrightarrow> int (pvirt s ! f) * int (pagesize s) * 4 \<le> 2147483647)"
proof -
  define s1 where "s1 = s\<lparr>timestamp := timestamp s + 1\<rparr>"
  define pte where "pte = a div pagesize s"
  define off where "off = a mod pagesize s"
  from ra have ts: "timestamp s < 2147483647" and ps: "0 < pagesize s"
    by (auto simp: real_address_def Let_def split: if_splits)
  obtain s2 r where lk: "lookup_in_tlb_and_mark s1 pte = (s2, r)"
    by (cases "lookup_in_tlb_and_mark s1 pte")
  show ?thesis
  proof (cases r)
    case (Some fr)
    from lk Some obtain i where i: "i < tlb s" "vtlb s ! i = pte" "\<forall>j<i. vtlb s ! j \<noteq> pte"
      "fr = ptlb s ! i" and s2: "s2 = s1\<lparr>tlbtime := (tlbtime s1)[i := timestamp s1]\<rparr>"
      by (auto simp: s1_def dest!: lookup_in_tlb_and_mark_Some)
    from ra lk Some ts ps obtain s3 where mk: "mark s2 fr d = Inr s3"
      and idx: "make_address s3 fr off = Inr idx" and s3: "s' = s3"
      by (auto simp: real_address_def Let_def s1_def pte_def off_def split: sum.splits)
    note mk = mk [folded s3] and idx = idx [folded s3]
    from mk have fr: "fr < ppage s" and s': "s' = s2\<lparr>dirty := (if d then (dirty s2)[fr := True] else dirty s2),
            ptime := (ptime s2)[fr := timestamp s2]\<rparr>"
      by (auto simp: mark_Inr s2 s1_def)
    have "s' = s\<lparr>timestamp := timestamp s + 1,
               tlbtime := (tlbtime s)[i := timestamp s + 1],
               dirty := (if d then (dirty s)[ptlb s ! i := True] else dirty s),
               ptime := (ptime s)[ptlb s ! i := timestamp s + 1]\<rparr>"
      unfolding s' s2 by (intro VM.equality) (auto simp: s1_def i(4))
    moreover have "idx = ptlb s ! i * pagesize s + a mod pagesize s \<and>
        int (ptlb s ! i) * int (pagesize s) * 4 \<le> 2147483647 \<and>
        int (a mod pagesize s) * 4 \<le> 2147483647"
      using idx unfolding s' s2 by (simp add: make_address_Inr s1_def i(4) off_def)
    ultimately show ?thesis
      using hit [of i] ts ps i fr by (simp add: pte_def)
  next
    case None
    from lk None have miss: "\<forall>i<tlb s. vtlb s ! i \<noteq> pte" and s2: "s2 = s1"
      by (auto simp: lookup_in_tlb_and_mark_None s1_def)
    define s3 where "s3 = s\<lparr>timestamp := timestamp s + 1, tc := tc s + 1\<rparr>"
    show ?thesis
    proof (cases "lookup_in_mem s3 pte")
      case (Some f)
      then have f: "f < ppage s" "pvirt s ! f = pte" "\<forall>j<f. pvirt s ! j \<noteq> pte"
        by (auto simp: lookup_in_mem_Some s3_def)
      from ra lk None s2 Some ts ps obtain s4 where mk: "mark s3 f d = Inr s4"
        and ad: "addtlb s4 f pte = Inr s'" and idx: "make_address s' f off = Inr idx"
        by (auto simp: real_address_def Let_def s1_def s3_def pte_def off_def split: sum.splits)
      from mk have s4: "s4 = s3\<lparr>dirty := (if d then (dirty s3)[f := True] else dirty s3),
            ptime := (ptime s3)[f := timestamp s3]\<rparr>"
        by (simp add: mark_Inr)
      from ad obtain k r2 where k: "k < tlb s4"
        and pk: "policy_pick (tlbalg s4) (tlb s4) (rrt s4) (tlbtime s4) k r2"
        and s': "s' = s4\<lparr>rrt := r2, ptlb := (ptlb s4)[k := f], vtlb := (vtlb s4)[k := pte],
             tlbtime := (tlbtime s4)[k := timestamp s4]\<rparr>"
        by (rule addtlbD)
      have "s' = s\<lparr>timestamp := timestamp s + 1, tc := tc s + 1,
               dirty := (if d then (dirty s)[f := True] else dirty s),
               ptime := (ptime s)[f := timestamp s + 1],
               rrt := r2, ptlb := (ptlb s)[k := f], vtlb := (vtlb s)[k := a div pagesize s],
               tlbtime := (tlbtime s)[k := timestamp s + 1]\<rparr>"
        unfolding s' s4 by (intro VM.equality) (auto simp: s3_def pte_def)
      moreover have "idx = f * pagesize s + a mod pagesize s \<and>
          int f * int (pagesize s) * 4 \<le> 2147483647 \<and> int (a mod pagesize s) * 4 \<le> 2147483647"
        using idx unfolding s' s4 by (simp add: make_address_Inr s3_def off_def)
      ultimately show ?thesis
        using resident [of f k r2] ts ps miss f k pk by (simp add: pte_def s4 s3_def)
    next
      case None': None
      then have nores: "\<forall>f<ppage s. pvirt s ! f \<noteq> pte"
        by (auto simp: lookup_in_mem_None s3_def)
      from ra lk None s2 None' ts ps have pf: "page_fault s3 pte off d = Inr (s', idx)"
        by (auto simp: real_address_def Let_def s1_def s3_def pte_def off_def)
      have len3: "length (pvirt s3) = ppage s3" using len by (simp add: s3_def)
      from pf len3 show ?thesis
      proof (rule page_faultD)
        fix f r k r2 tt
        assume a: "policy_pick (palg s3) (ppage s3) (rrp s3) (ptime s3) f r"
          "f < ppage s3"
          "dirty s3 ! f \<longrightarrow> pvirt s3 ! f * pagesize s3 + pagesize s3 \<le> length (disk s3)"
          "f * pagesize s3 + pagesize s3 \<le> length (mem s3)"
          "pte * pagesize s3 + pagesize s3 \<le> length (disk s3)"
          "k < tlb s3"
          "(ptlb s3 ! k = f \<and> (\<forall>j<k. ptlb s3 ! j \<noteq> f) \<and> r2 = rrt s3 \<and> tt = tlbtime s3) \<or>
           ((\<forall>i<tlb s3. ptlb s3 ! i \<noteq> f) \<and>
            policy_pick (tlbalg s3) (tlb s3) (rrt s3) (tlbtime s3) k r2 \<and>
            tt = (tlbtime s3)[k := timestamp s3])"
          and s': "s' = s3\<lparr>pc := pc s3 + 1, rrp := r,
             dc := (if dirty s3 ! f then dc s3 + 1 else dc s3),
             disk := fault_disk s3 f,
             pvirt := (pvirt s3)[f := pte],
             ptime := (ptime s3)[f := timestamp s3],
             dirty := (dirty s3)[f := d],
             mem := copy_words (mem s3) (f * pagesize s3) (fault_disk s3 f) (pte * pagesize s3)
                      (pagesize s3),
             rrt := r2, ptlb := (ptlb s3)[k := f], vtlb := (vtlb s3)[k := pte],
             tlbtime := tt\<rparr>"
          and idx: "idx = f * pagesize s3 + off"
          and ov: "int f * int (pagesize s3) * 4 \<le> 2147483647 \<and>
            int pte * int (pagesize s3) * 4 \<le> 2147483647 \<and> int (pagesize s3) * 4 \<le> 2147483647 \<and>
            int off * 4 \<le> 2147483647 \<and>
            (dirty s3 ! f \<longrightarrow> int (pvirt s3 ! f) * int (pagesize s3) * 4 \<le> 2147483647)"
        have fd: "fault_disk s3 f = fault_disk s f" by (simp add: fault_disk_def s3_def)
        have "s' = s\<lparr>timestamp := timestamp s + 1, tc := tc s + 1, pc := pc s + 1, rrp := r,
               dc := (if dirty s ! f then dc s + 1 else dc s),
               disk := fault_disk s f,
               pvirt := (pvirt s)[f := a div pagesize s],
               ptime := (ptime s)[f := timestamp s + 1],
               dirty := (dirty s)[f := d],
               mem := copy_words (mem s) (f * pagesize s) (fault_disk s f)
                        (a div pagesize s * pagesize s) (pagesize s),
               rrt := r2, ptlb := (ptlb s)[k := f], vtlb := (vtlb s)[k := a div pagesize s],
               tlbtime := tt\<rparr>"
          unfolding s' fd by (intro VM.equality) (auto simp: s3_def pte_def)
        moreover have "idx = f * pagesize s + a mod pagesize s"
          using idx by (simp add: s3_def off_def)
        ultimately show ?thesis
          using fault [of f r k r2 tt] ts ps miss nores a ov
          by (simp add: pte_def s3_def off_def)
      qed
    qed
  qed
qed
lemma wf_createVM_model: "wf (createVM_model V P S T pa ta)"
  by (simp add: wf_def createVM_model_def)

lemma wf_len: "wf s \<Longrightarrow> length (pvirt s) = ppage s"
  by (simp add: wf_def)

lemma real_address_config:
  assumes "real_address s a d = Inr (s', idx)" "wf s"
  shows "pagesize s' = pagesize s \<and> vpage s' = vpage s \<and> ppage s' = ppage s \<and>
         palg s' = palg s \<and> tlb s' = tlb s \<and> tlbalg s' = tlbalg s"
  using assms(1) wf_len [OF assms(2)]
  by (cases rule: real_addressE) simp_all

lemma real_address_wf:
  assumes "real_address s a d = Inr (s', idx)" "wf s"
  shows "wf s'"
  using assms(1) wf_len [OF assms(2)]
proof (cases rule: real_addressE)
  case (hit i)
  with assms(2) show ?thesis by (simp add: wf_def)
next
  case (resident f k r2)
  with assms(2) show ?thesis by (simp add: wf_def)
next
  case (fault f r k r2 tt)
  from fault(11) have "length tt = length (tlbtime s)" by auto
  with fault(12) assms(2) show ?thesis by (simp add: wf_def)
qed

lemma real_address_counters:
  assumes "real_address s a d = Inr (s', idx)" "wf s"
  shows "(tc s' = tc s \<and> pc s' = pc s \<and> dc s' = dc s) \<or>
         (tc s' = tc s + 1 \<and> pc s' = pc s \<and> dc s' = dc s) \<or>
         (tc s' = tc s + 1 \<and> pc s' = pc s + 1 \<and> (dc s' = dc s \<or> dc s' = dc s + 1))"
  using assms(1) wf_len [OF assms(2)]
  by (cases rule: real_addressE) simp_all

lemma readIntD:
  assumes "readInt s a = Inr (s', v)"
  obtains idx where "real_address s a False = Inr (s', idx)" "idx < length (mem s')"
    "v = mem s' ! idx"
  using assms by (auto simp: readInt_def read_address_def split: sum.splits if_splits)

lemma writeIntD:
  assumes "writeInt s a v = Inr s''"
  obtains s' idx where "real_address s a True = Inr (s', idx)" "idx < length (mem s')"
    "s'' = s'\<lparr>mem := (mem s')[idx := v]\<rparr>"
  using assms by (auto simp: writeInt_def write_address_def split: sum.splits if_splits)

lemma execE:
  assumes "exec s x = Inr s''"
  obtains s' idx d where "real_address s (addr_of x) d = Inr (s', idx)" "idx < length (mem s')"
    "s'' = s' \<or> (\<exists>v. s'' = s'\<lparr>mem := (mem s')[idx := v]\<rparr>)"
proof (cases x)
  case (Read a)
  with assms obtain v where "readInt s a = Inr (s'', v)" by (auto split: sum.splits)
  then show ?thesis using that Read by (auto elim!: readIntD)
next
  case (Write a v)
  with assms have "writeInt s a v = Inr s''" by simp
  then show ?thesis using that Write by (auto elim!: writeIntD)
qed

lemma exec_wf: "exec s x = Inr s' \<Longrightarrow> wf s \<Longrightarrow> wf s'"
  by (erule execE) (auto dest!: real_address_wf simp: wf_def)

lemma exec_counters:
  assumes "exec s x = Inr s'" "wf s" "dc s \<le> pc s \<and> pc s \<le> tc s"
  shows "dc s' \<le> pc s' \<and> pc s' \<le> tc s'"
  using assms(1)
proof (rule execE)
  fix s1 idx d
  assume ra: "real_address s (addr_of x) d = Inr (s1, idx)"
    and s': "s' = s1 \<or> (\<exists>v. s' = s1\<lparr>mem := (mem s1)[idx := v]\<rparr>)"
  from real_address_counters [OF ra assms(2)] assms(3)
  have "dc s1 \<le> pc s1 \<and> pc s1 \<le> tc s1" by auto
  with s' show ?thesis by auto
qed

lemma run_counters:
  "run s xs = Inr s' \<Longrightarrow> wf s \<Longrightarrow> dc s \<le> pc s \<and> pc s \<le> tc s \<Longrightarrow>
     wf s' \<and> dc s' \<le> pc s' \<and> pc s' \<le> tc s'"
proof (induction xs arbitrary: s)
  case Nil
  then show ?case by simp
next
  case (Cons x xs)
  from Cons.prems(1) obtain s1 where e: "exec s x = Inr s1" and r: "run s1 xs = Inr s'"
    by (auto split: sum.splits)
  from exec_wf [OF e Cons.prems(2)] exec_counters [OF e Cons.prems(2,3)] Cons.IH [OF r]
  show ?case by simp
qed

lemma run_wf: "run s xs = Inr s' \<Longrightarrow> wf s \<Longrightarrow> wf s'"
proof (induction xs arbitrary: s)
  case Nil
  then show ?case by simp
next
  case (Cons x xs)
  from Cons.prems(1) obtain s1 where e: "exec s x = Inr s1" and r: "run s1 xs = Inr s'"
    by (auto split: sum.splits)
  from exec_wf [OF e Cons.prems(2)] Cons.IH [OF r] show ?case by simp
qed

lemma minindex_exists:
  assumes "j < n" "p ! j < 2147483647"
  shows "\<exists>k. minindex p n = Some k"
proof (cases "minindex p n")
  case None
  with assms show ?thesis by (auto simp: minindex_None)
qed simp

lemma minindex_lowest_min: "minindex p n = Some k \<Longrightarrow> lowest_min_index p n k"
  by (simp add: minindex_Some lowest_min_index_def)

lemma fault_victim:
  assumes ra: "real_address s a d = Inr (s', idx)" and wf: "wf s"
    and pf: "pc s' \<noteq> pc s"
  obtains f r where "policy_pick (palg s) (ppage s) (rrp s) (ptime s) f r"
    "pvirt s' = (pvirt s)[f := a div pagesize s]" "pc s' = pc s + 1" "rrp s' = r"
  using ra wf_len [OF wf]
proof (cases rule: real_addressE)
  case (hit i)
  with pf show ?thesis by simp
next
  case (resident f k r2)
  with pf show ?thesis by simp
next
  case (fault f r k r2 tt)
  then show ?thesis using that [of f r] by simp
qed







lemma exec_config:
  assumes "exec s x = Inr s'" "wf s"
  shows "pagesize s' = pagesize s \<and> vpage s' = vpage s \<and> ppage s' = ppage s \<and>
         palg s' = palg s \<and> tlb s' = tlb s \<and> tlbalg s' = tlbalg s"
  using assms(1)
proof (rule execE)
  fix s1 idx d
  assume ra: "real_address s (addr_of x) d = Inr (s1, idx)"
    and s': "s' = s1 \<or> (\<exists>v. s' = s1\<lparr>mem := (mem s1)[idx := v]\<rparr>)"
  from real_address_config [OF ra assms(2)] s' show ?thesis by auto
qed

lemma run_config:
  "run s xs = Inr s' \<Longrightarrow> wf s \<Longrightarrow>
     pagesize s' = pagesize s \<and> vpage s' = vpage s \<and> ppage s' = ppage s \<and>
     palg s' = palg s \<and> tlb s' = tlb s \<and> tlbalg s' = tlbalg s"
proof (induction xs arbitrary: s)
  case Nil
  then show ?case by simp
next
  case (Cons x xs)
  from Cons.prems(1) obtain s1 where e: "exec s x = Inr s1" and r: "run s1 xs = Inr s'"
    by (auto split: sum.splits)
  from exec_config [OF e Cons.prems(2)] exec_wf [OF e Cons.prems(2)] Cons.IH [OF r]
  show ?case by simp
qed

lemma createVM_model_fields [simp]:
  "pagesize (createVM_model V P S T pa ta) = S"
  "vpage (createVM_model V P S T pa ta) = V"
  "ppage (createVM_model V P S T pa ta) = P"
  "palg (createVM_model V P S T pa ta) = pa"
  "tlb (createVM_model V P S T pa ta) = T"
  "tlbalg (createVM_model V P S T pa ta) = ta"
  "rrp (createVM_model V P S T pa ta) = 0"
  "rrt (createVM_model V P S T pa ta) = 0"
  "pc (createVM_model V P S T pa ta) = 0"
  "tc (createVM_model V P S T pa ta) = 0"
  "dc (createVM_model V P S T pa ta) = 0"
  "timestamp (createVM_model V P S T pa ta) = 0"
  by (simp_all add: createVM_model_def)

lemma coherent_createVM_model:
  "T \<le> P \<Longrightarrow> coherent (createVM_model V P S T pa ta)"
  by (simp add: coherent_def createVM_model_def)

lemma notin_set_nth: "\<forall>i<length xs. xs ! i \<noteq> a \<Longrightarrow> a \<notin> set xs"
  by (auto simp: in_set_conv_nth)

lemma real_address_coherent:
  assumes ra: "real_address s a d = Inr (s', idx)" and wf: "wf s" and co: "coherent s"
  shows "coherent s'"
  using ra wf_len [OF wf]
proof (cases rule: real_addressE)
  case (hit i)
  with co show ?thesis by (simp add: coherent_def)
next
  case (resident f k r2)
  from wf have len: "length (ptlb s) = tlb s" "length (vtlb s) = tlb s" "length (pvirt s) = ppage s"
    by (simp_all add: wf_def)
  have nf: "\<forall>i<tlb s. ptlb s ! i \<noteq> f"
  proof (intro allI impI notI)
    fix i assume i: "i < tlb s" "ptlb s ! i = f"
    with co have "vtlb s ! i = pvirt s ! f" by (auto simp: coherent_def)
    with resident(3,5) i show False by simp
  qed
  then have "f \<notin> set (ptlb s)" using len by (intro notin_set_nth) simp
  with co have d: "distinct ((ptlb s)[k := f])" by (auto simp: coherent_def intro: distinct_list_update)
  have "\<forall>i<tlb s. (ptlb s)[k := f] ! i < ppage s \<and>
      pvirt s ! ((ptlb s)[k := f] ! i) = (vtlb s)[k := a div pagesize s] ! i"
    using co resident(4,5,7) len by (auto simp: coherent_def nth_list_update)
  with d co resident(9) show ?thesis by (simp add: coherent_def)
next
  case (fault f r k r2 tt)
  from wf have len: "length (ptlb s) = tlb s" "length (vtlb s) = tlb s" "length (pvirt s) = ppage s"
    by (simp_all add: wf_def)
  let ?pte = "a div pagesize s"
  from fault(4) len have "?pte \<notin> set (pvirt s)" by (intro notin_set_nth) simp
  with co have dp: "distinct ((pvirt s)[f := ?pte])"
    by (auto simp: coherent_def intro: distinct_list_update)
  from fault(11) have others: "\<forall>i<tlb s. i \<noteq> k \<longrightarrow> ptlb s ! i \<noteq> f"
  proof
    assume "ptlb s ! k = f \<and> (\<forall>j<k. ptlb s ! j \<noteq> f) \<and> r2 = rrt s \<and> tt = tlbtime s"
    with co len fault(10) show ?thesis
      by (auto simp: coherent_def nth_eq_iff_index_eq)
  next
    assume "(\<forall>i<tlb s. ptlb s ! i \<noteq> f) \<and>
        policy_pick (tlbalg s) (tlb s) (rrt s) (tlbtime s) k r2 \<and>
        tt = (tlbtime s)[k := timestamp s + 1]"
    then show ?thesis by simp
  qed
  have dt: "distinct ((ptlb s)[k := f])"
  proof -
    have "f \<notin> set (ptlb s) - {ptlb s ! k}"
      using others len by (auto simp: in_set_conv_nth)
    with co show ?thesis by (auto simp: coherent_def intro: distinct_list_update)
  qed
  have "\<forall>i<tlb s. (ptlb s)[k := f] ! i < ppage s \<and>
      (pvirt s)[f := ?pte] ! ((ptlb s)[k := f] ! i) = (vtlb s)[k := ?pte] ! i"
    using co others fault(6,10) len by (auto simp: coherent_def nth_list_update)
  with dp dt fault(12) show ?thesis by (simp add: coherent_def)
qed

lemma exec_coherent:
  assumes "exec s x = Inr s'" "wf s" "coherent s"
  shows "coherent s'"
  using assms(1)
proof (rule execE)
  fix s1 idx d
  assume ra: "real_address s (addr_of x) d = Inr (s1, idx)"
    and s': "s' = s1 \<or> (\<exists>v. s' = s1\<lparr>mem := (mem s1)[idx := v]\<rparr>)"
  from real_address_coherent [OF ra assms(2,3)] s' show ?thesis
    by (auto simp: coherent_def)
qed

lemma run_coherent:
  "run s xs = Inr s' \<Longrightarrow> wf s \<Longrightarrow> coherent s \<Longrightarrow> coherent s'"
proof (induction xs arbitrary: s)
  case Nil
  then show ?case by simp
next
  case (Cons x xs)
  from Cons.prems(1) obtain s1 where e: "exec s x = Inr s1" and r: "run s1 xs = Inr s'"
    by (auto split: sum.splits)
  from exec_coherent [OF e Cons.prems(2,3)] exec_wf [OF e Cons.prems(2)] Cons.IH [OF r]
  show ?case by simp
qed

lemma coherent_tlb_hit:
  assumes "coherent s" "lookup_in_tlb_and_mark s vpn = (s1, Some f)"
  shows "f < ppage s \<and> pvirt s ! f = vpn"
  using assms by (auto simp: coherent_def dest!: lookup_in_tlb_and_mark_Some)

lemma coherent_not_resident_miss:
  assumes co: "coherent s" and nr: "\<forall>g<ppage s. pvirt s ! g \<noteq> p"
  shows "snd (lookup_in_tlb_and_mark s p) = None"
proof (cases "lookup_in_tlb_and_mark s p")
  case (Pair s1 r)
  show ?thesis
  proof (cases r)
    case None
    with Pair show ?thesis by simp
  next
    case (Some f)
    with Pair coherent_tlb_hit [OF co] nr show ?thesis by auto
  qed
qed

lemma page_slot_less: "f < P \<Longrightarrow> k < S \<Longrightarrow> f * S + k < P * (S::nat)"
proof -
  assume "f < P" "k < S"
  then have "Suc f * S \<le> P * S" by (intro mult_le_mono1) simp
  with \<open>k < S\<close> show ?thesis by simp
qed

lemma offsets_fit:
  assumes "f < P" "k < S" "int P * int S * 4 \<le> M"
  shows "int f * int S * 4 \<le> M \<and> int k * 4 \<le> M \<and> int S * 4 \<le> M"
proof -
  from page_slot_less [OF assms(1,2)] have "f * S + k < P * S" .
  then have "k \<le> P * S" by simp
  moreover from assms(1) have "f * S \<le> P * S" by (intro mult_le_mono1) simp
  ultimately have 1: "f * S \<le> P * S" "k \<le> P * S" by simp_all
  from assms(1) have "1 * S \<le> P * S" by (intro mult_le_mono1) simp
  then have 2: "S \<le> P * S" by simp
  from 1 2 have "int (f * S) \<le> int (P * S)" "int k \<le> int (P * S)" "int S \<le> int (P * S)"
    by (simp_all only: of_nat_le_iff)
  with assms(3) show ?thesis by simp
qed

lemma wrap_id:
  assumes "int n * int m * 4 \<le> 2147483647"
  shows "nat ((int n * int m) mod 4294967296) = n * m"
proof -
  have "0 \<le> int n * int m" by simp
  moreover from assms have "int n * int m < 4294967296" by simp
  ultimately have "(int n * int m) mod 4294967296 = int n * int m" by simp
  then show ?thesis by (simp add: nat_mult_distrib)
qed

lemma createVM_model_mem:
  "int P * int S * 4 \<le> 2147483647 \<Longrightarrow> length (mem (createVM_model V P S T pa ta)) = P * S"
  using wrap_id [of P S] by (simp add: createVM_model_def)

lemma createVM_model_disk:
  "int V * int S * 4 \<le> 2147483647 \<Longrightarrow> length (disk (createVM_model V P S T pa ta)) = V * S"
  using wrap_id [of V S] by (simp add: createVM_model_def)

lemma warm_createVM_model:
  "T \<le> P \<Longrightarrow> 0 < S \<Longrightarrow> int P * int S * 4 \<le> 2147483647 \<Longrightarrow>
     warm T (createVM_model V P S T pa ta)"
  by (simp add: warm_def wf_createVM_model createVM_model_mem) (simp add: createVM_model_def)

lemma warm_real_address:
  assumes w: "warm T s" and a: "a div pagesize s < T" and ts: "timestamp s < 2147483647"
  shows "\<exists>s'. real_address s a d = Inr (s', a) \<and> warm T s' \<and> a < length (mem s') \<and>
           timestamp s' = timestamp s + 1 \<and> pagesize s' = pagesize s"
proof -
  let ?pte = "a div pagesize s"
  let ?s' = "s\<lparr>timestamp := timestamp s + 1,
               tlbtime := (tlbtime s)[?pte := timestamp s + 1],
               dirty := (if d then (dirty s)[?pte := True] else dirty s),
               ptime := (ptime s)[?pte := timestamp s + 1]\<rparr>"
  from w a have f: "find (\<lambda>i. vtlb s ! i = ?pte) [0..<tlb s] = Some ?pte"
    by (simp add: find_upt_Some warm_def)
  from w a have p: "ptlb s ! ?pte = ?pte" "?pte < ppage s" "0 < pagesize s"
    by (simp_all add: warm_def)
  from w have fit: "int (ppage s) * int (pagesize s) * 4 \<le> 2147483647"
    by (simp add: warm_def)
  from p(3) have off: "a mod pagesize s < pagesize s" by simp
  from offsets_fit [OF p(2) off fit]
  have ov: "\<not> 2147483647 < int ?pte * int (pagesize s) * 4"
    "\<not> 2147483647 < int (a mod pagesize s) * 4" by simp_all
  from f p ts ov have "real_address s a d = Inr (?s', a)"
    by (simp add: real_address_def Let_def lookup_in_tlb_and_mark_def mark_def make_address_def)
  moreover from w have "warm T ?s'" by (simp add: warm_def wf_def)
  moreover have "a < length (mem ?s')"
  proof -
    from p have "a < ppage s * pagesize s"
      by (metis less_mult_imp_div_less div_less_iff_less_mult linorder_not_less)
    with w show ?thesis by (simp add: warm_def)
  qed
  ultimately show ?thesis by simp
qed

lemma warm_exec:
  assumes w: "warm T s" and a: "addr_of x div pagesize s < T" and ts: "timestamp s < 2147483647"
  shows "\<exists>s'. exec s x = Inr s' \<and> warm T s' \<and> timestamp s' = timestamp s + 1 \<and>
           pagesize s' = pagesize s"
proof (cases x)
  case (Read b)
  with warm_real_address [OF w _ ts, of b False] a w show ?thesis
    by (auto simp: readInt_def read_address_def warm_def)
next
  case (Write b v)
  with warm_real_address [OF w _ ts, of b True] a w show ?thesis
    by (auto simp: writeInt_def write_address_def warm_def wf_def)
qed

lemma warm_run:
  "warm T s \<Longrightarrow> \<forall>x\<in>set xs. addr_of x div pagesize s < T \<Longrightarrow>
     timestamp s + int (length xs) \<le> 2147483647 \<Longrightarrow>
     \<exists>s'. run s xs = Inr s' \<and> warm T s'"
proof (induction xs arbitrary: s)
  case Nil
  then show ?case by simp
next
  case (Cons x xs)
  from Cons.prems have "timestamp s < 2147483647" "addr_of x div pagesize s < T" by simp_all
  with warm_exec [OF Cons.prems(1)] obtain s1 where e: "exec s x = Inr s1" and w: "warm T s1"
    and t: "timestamp s1 = timestamp s + 1" and p: "pagesize s1 = pagesize s"
    by blast
  from Cons.prems p t have "\<forall>x\<in>set xs. addr_of x div pagesize s1 < T"
    "timestamp s1 + int (length xs) \<le> 2147483647" by simp_all
  with Cons.IH [OF w] e show ?case by simp
qed

section \<open>The virtual memory as a flat array of words\<close>

lemma page_slot_in: "k < S \<Longrightarrow> f * S \<le> f * S + k \<and> f * S + k < f * S + (S::nat)"
  by simp

lemma page_slot_out:
  assumes "g \<noteq> f" "k < (S::nat)"
  shows "\<not> (f * S \<le> g * S + k \<and> g * S + k < f * S + S)"
proof (cases "g < f")
  case True
  then have "Suc g * S \<le> f * S" by (intro mult_le_mono1) simp
  with assms(2) show ?thesis by simp
next
  case False
  with assms(1) have "Suc f * S \<le> g * S" by (intro mult_le_mono1) simp
  then show ?thesis by simp
qed

lemma page_slot_inj:
  assumes "f * S + k = g * S + l" "k < S" "l < (S::nat)"
  shows "f = g \<and> k = l"
proof -
  have "f = g"
  proof (rule ccontr)
    assume "f \<noteq> g"
    then have "g \<noteq> f" by simp
    from page_slot_out [OF this assms(3)] assms(1,2) show False by simp
  qed
  with assms(1) show ?thesis by simp
qed

lemma lookup_in_mem_distinct:
  assumes "length (pvirt s) = ppage s" "distinct (pvirt s)"
  shows "lookup_in_mem s p = Some f \<longleftrightarrow> f < ppage s \<and> pvirt s ! f = p"
  using assms by (auto simp: lookup_in_mem_Some nth_eq_iff_index_eq)

lemma real_address_idx:
  assumes ra: "real_address s a d = Inr (s', idx)" and wf: "wf s" and co: "coherent s"
    and sz: "sized s"
  shows "\<exists>f<ppage s. pvirt s' ! f = a div pagesize s \<and> idx = f * pagesize s + a mod pagesize s \<and>
           (d \<longrightarrow> dirty s' ! f) \<and> idx < length (mem s') \<and> 0 < pagesize s"
  using ra wf_len [OF wf]
proof (cases rule: real_addressE)
  case (hit i)
  let ?f = "ptlb s ! i"
  from wf sz have len: "length (dirty s) = ppage s" "length (mem s) = ppage s * pagesize s"
    by (simp_all add: wf_def sized_def)
  from co hit(3,4) have "pvirt s ! ?f = a div pagesize s" by (simp add: coherent_def)
  moreover have "a mod pagesize s < pagesize s" using hit(2) by simp
  from page_slot_less [OF hit(6) this] have "idx < length (mem s)" using hit(8) len by simp
  ultimately show ?thesis using hit len by (intro exI [of _ ?f]) simp
next
  case (resident f k r2)
  from wf sz have len: "length (dirty s) = ppage s" "length (mem s) = ppage s * pagesize s"
    by (simp_all add: wf_def sized_def)
  have "a mod pagesize s < pagesize s" using resident(2) by simp
  from page_slot_less [OF resident(4) this] have "idx < length (mem s)"
    using resident(10) len by simp
  then show ?thesis using resident len by (intro exI [of _ f]) simp
next
  case (fault f r k r2 tt)
  from wf sz have len: "length (dirty s) = ppage s" "length (mem s) = ppage s * pagesize s"
    "length (pvirt s) = ppage s"
    by (simp_all add: wf_def sized_def)
  have "a mod pagesize s < pagesize s" using fault(2) by simp
  from page_slot_less [OF fault(6) this] have "idx < length (mem s)"
    using fault(13) len by simp
  then show ?thesis using fault len by (intro exI [of _ f]) simp
qed

lemma vword_cong:
  assumes "pvirt s' = pvirt s" "ppage s' = ppage s" "pagesize s' = pagesize s"
    "mem s' = mem s" "disk s' = disk s"
  shows "vword s' b = vword s b"
  using assms by (simp add: vword_def lookup_in_mem_def split: option.splits)

text \<open>The page fault, seen from the contents of memory and disk.\<close>

lemma fault_contents:
  assumes wf: "wf s" and sz: "sized s" and co: "coherent s" and dk: "disk_ok s"
    and S: "0 < pagesize s" and f: "f < ppage s"
    and nores: "\<forall>g<ppage s. pvirt s ! g \<noteq> pte"
    and b1: "dirty s ! f \<longrightarrow> pvirt s ! f * pagesize s + pagesize s \<le> length (disk s)"
    and b3: "pte * pagesize s + pagesize s \<le> length (disk s)"
  defines "S \<equiv> pagesize s"
  defines "q \<equiv> pvirt s ! f"
  defines "disk' \<equiv> fault_disk s f"
  defines "mem' \<equiv> copy_words (mem s) (f * S) disk' (pte * S) S"
  shows "pte < vpage s"
    and "\<And>p k. p \<noteq> q \<Longrightarrow> p < vpage s \<Longrightarrow> k < S \<Longrightarrow> disk' ! (p * S + k) = disk s ! (p * S + k)"
    and "\<And>k. k < S \<Longrightarrow> disk' ! (q * S + k) = mem s ! (f * S + k)"
    and "\<And>g k. g < ppage s \<Longrightarrow> g \<noteq> f \<Longrightarrow> k < S \<Longrightarrow> mem' ! (g * S + k) = mem s ! (g * S + k)"
    and "\<And>k. k < S \<Longrightarrow> mem' ! (f * S + k) = disk' ! (pte * S + k)"
proof -
  from wf sz have len: "length (mem s) = ppage s * S" "length (disk s) = vpage s * S"
    "length (pvirt s) = ppage s"
    by (simp_all add: wf_def sized_def S_def)
  from dk f have qV: "q < vpage s" by (simp add: disk_ok_def q_def)
  from b3 len have "Suc pte * S \<le> vpage s * S" by (simp add: S_def)
  then have "Suc pte \<le> vpage s" using S unfolding S_def mult_le_cancel2 by blast
  then show pteV: "pte < vpage s" by simp
  from nores f have pq: "pte \<noteq> q" by (auto simp: q_def)
  show D2: "disk' ! (p * S + k) = disk s ! (p * S + k)"
    if "p \<noteq> q" "p < vpage s" "k < S" for p k
  proof -
    from page_slot_less [OF that(2,3)] len have "p * S + k < length (disk s)" by simp
    with page_slot_out [OF that(1,3), of ] show ?thesis
      by (auto simp: disk'_def fault_disk_def nth_copy_words S_def q_def)
  qed
  show D3: "disk' ! (q * S + k) = mem s ! (f * S + k)" if "k < S" for k
  proof (cases "dirty s ! f")
    case True
    from page_slot_less [OF qV that] len have "q * S + k < length (disk s)" by simp
    with True that show ?thesis
      by (simp add: disk'_def fault_disk_def nth_copy_words S_def q_def)
  next
    case False
    with dk f that have "mem s ! (f * S + k) = disk s ! (q * S + k)"
      by (simp add: disk_ok_def S_def q_def)
    with False show ?thesis by (simp add: disk'_def fault_disk_def)
  qed
  show "mem' ! (g * S + k) = mem s ! (g * S + k)" if "g < ppage s" "g \<noteq> f" "k < S" for g k
  proof -
    from page_slot_less [OF that(1,3)] len have "g * S + k < length (mem s)" by simp
    with page_slot_out [OF that(2,3)] show ?thesis
      by (auto simp: mem'_def nth_copy_words)
  qed
  show "mem' ! (f * S + k) = disk' ! (pte * S + k)" if "k < S" for k
  proof -
    from page_slot_less [OF f that] len have "f * S + k < length (mem s)" by simp
    with that show ?thesis by (simp add: mem'_def nth_copy_words)
  qed
qed

lemma update_True_nth: "xs ! j \<Longrightarrow> xs[i := True] ! j"
  by (cases "i = j"; cases "i < length xs") (auto simp: list_update_beyond)

lemma real_address_disk_ok:
  assumes ra: "real_address s a d = Inr (s', idx)" and wf: "wf s" and co: "coherent s"
    and sz: "sized s"
    and dk: "disk_ok s"
  shows "disk_ok s'"
  using ra wf_len [OF wf]
proof (cases rule: real_addressE)
  case (hit i)
  from wf sz have len: "length (dirty s) = ppage s" by (simp add: wf_def)
  from dk hit(7) len show ?thesis
    by (auto simp: disk_ok_def dest: update_True_nth)
next
  case (resident f k r2)
  from wf sz have len: "length (dirty s) = ppage s" by (simp add: wf_def)
  from dk resident(9) len show ?thesis
    by (auto simp: disk_ok_def dest: update_True_nth)
next
  case (fault f r k r2 tt)
  let ?S = "pagesize s" and ?pte = "a div pagesize s"
  from wf sz have len: "length (dirty s) = ppage s" "length (pvirt s) = ppage s"
    by (simp_all add: wf_def sized_def)
  note fc = fault_contents [OF wf sz co dk fault(2,6,4,7,9)]
  have fields: "pvirt s' = (pvirt s)[f := ?pte]" "dirty s' = (dirty s)[f := d]"
    "disk s' = fault_disk s f"
    "mem s' = copy_words (mem s) (f * ?S) (fault_disk s f) (?pte * ?S) ?S"
    "ppage s' = ppage s" "pagesize s' = ?S" "vpage s' = vpage s"
    using fault(12) by simp_all
  have 1: "\<forall>g<ppage s'. pvirt s' ! g < vpage s'"
    using dk fc(1) len fault(6) by (auto simp: fields disk_ok_def nth_list_update)
  have 2: "mem s' ! (g * ?S + k) = disk s' ! (pvirt s' ! g * ?S + k)"
    if g: "g < ppage s" and cl: "\<not> dirty s' ! g" and k: "k < ?S" for g k
  proof (cases "g = f")
    case True
    with fc(5) [OF k] fault(6) len show ?thesis by (simp add: fields)
  next
    case False
    with cl len have cl': "\<not> dirty s ! g" by (simp add: fields)
    from False g fault(6) co len have ne: "pvirt s ! g \<noteq> pvirt s ! f"
      by (simp add: coherent_def nth_eq_iff_index_eq)
    from dk g have lt: "pvirt s ! g < vpage s" by (simp add: disk_ok_def)
    from dk g cl' k have "mem s ! (g * ?S + k) = disk s ! (pvirt s ! g * ?S + k)"
      by (simp add: disk_ok_def)
    with fc(4) [OF g False k] fc(2) [OF ne lt k] False show ?thesis
      by (simp add: fields)
  qed
  from 1 2 show ?thesis by (simp add: disk_ok_def fields)
qed

lemma real_address_vword:
  assumes ra: "real_address s a d = Inr (s', idx)" and wf: "wf s" and co: "coherent s"
    and sz: "sized s"
    and dk: "disk_ok s" and b: "b < vpage s * pagesize s"
  shows "vword s' b = vword s b"
  using ra wf_len [OF wf]
proof (cases rule: real_addressE)
  case (hit i)
  then show ?thesis by (intro vword_cong) simp_all
next
  case (resident f k r2)
  then show ?thesis by (intro vword_cong) simp_all
next
  case (fault f r k r2 tt)
  let ?S = "pagesize s" and ?pte = "a div pagesize s"
  let ?p = "b div ?S" and ?k = "b mod ?S"
  let ?q = "pvirt s ! f"
  from wf sz have len: "length (dirty s) = ppage s" "length (pvirt s) = ppage s"
    by (simp_all add: wf_def sized_def)
  note fc = fault_contents [OF wf sz co dk fault(2,6,4,7,9)]
  have fields: "pvirt s' = (pvirt s)[f := ?pte]" "dirty s' = (dirty s)[f := d]"
    "disk s' = fault_disk s f"
    "mem s' = copy_words (mem s) (f * ?S) (fault_disk s f) (?pte * ?S) ?S"
    "ppage s' = ppage s" "pagesize s' = ?S" "vpage s' = vpage s"
    using fault(12) by simp_all
  from real_address_coherent [OF ra wf co] have co': "coherent s'" .
  from co have dist: "distinct (pvirt s)" by (simp add: coherent_def)
  from co' have dist': "distinct (pvirt s')" by (simp add: coherent_def)
  have lk: "lookup_in_mem s p = Some g \<longleftrightarrow> g < ppage s \<and> pvirt s ! g = p" for p g
    using len dist by (intro lookup_in_mem_distinct)
  have lk': "lookup_in_mem s' p = Some g \<longleftrightarrow> g < ppage s \<and> pvirt s' ! g = p" for p g
    using lookup_in_mem_distinct [of s' p g] len dist' by (simp add: fields)
  have k: "?k < ?S" using fault(2) by simp
  have bq: "b = ?p * ?S + ?k" by simp
  from b fault(2) have pV: "?p < vpage s" by (simp add: less_mult_imp_div_less)
  show ?thesis
  proof (cases "?p = ?pte")
    case True
    from fault(6) len have "lookup_in_mem s' ?p = Some f" by (simp add: lk' fields True)
    then have 1: "vword s' b = mem s' ! (f * ?S + ?k)" by (simp add: vword_def fields)
    from fault(4) True have "lookup_in_mem s ?p = None" by (simp add: lookup_in_mem_None)
    then have 2: "vword s b = disk s ! b" by (simp add: vword_def)
    from fault(4,6) have "?pte \<noteq> ?q" by auto
    from fc(5) [OF k] fc(2) [OF this fc(1) k] have "mem s' ! (f * ?S + ?k) = disk s ! (?pte * ?S + ?k)"
      by (simp add: fields)
    with 1 2 True bq show ?thesis by simp
  next
    case npte: False
    show ?thesis
    proof (cases "?p = ?q")
      case True
      from fault(6) True have "lookup_in_mem s ?p = Some f" by (simp add: lk)
      then have 1: "vword s b = mem s ! (f * ?S + ?k)" by (simp add: vword_def)
      have "lookup_in_mem s' ?p = None"
      proof (cases "lookup_in_mem s' ?p")
        case (Some g)
        then have g: "g < ppage s" "pvirt s' ! g = ?p" by (simp_all add: lk')
        show ?thesis
        proof (cases "g = f")
          case True
          with g fault(6) len npte show ?thesis by (simp add: fields)
        next
          case False
          with g have "pvirt s ! g = pvirt s ! f" using True by (simp add: fields)
          with dist len g(1) fault(6) False show ?thesis
            by (simp add: nth_eq_iff_index_eq)
        qed
      qed simp
      then have 2: "vword s' b = disk s' ! b" by (simp add: vword_def fields)
      from fc(3) [OF k] have "disk s' ! (?q * ?S + ?k) = mem s ! (f * ?S + ?k)"
        by (simp add: fields)
      with 1 2 True bq show ?thesis by simp
    next
      case nq: False
      show ?thesis
      proof (cases "lookup_in_mem s ?p")
        case None
        then have nr: "\<forall>g<ppage s. pvirt s ! g \<noteq> ?p" by (simp add: lookup_in_mem_None)
        have "lookup_in_mem s' ?p = None"
          using nr npte len fault(6) by (auto simp: lookup_in_mem_None fields nth_list_update)
        then have "vword s' b = disk s' ! b" by (simp add: vword_def fields)
        moreover from None have "vword s b = disk s ! b" by (simp add: vword_def)
        moreover from fc(2) [OF nq pV k] bq have "disk s' ! b = disk s ! b"
          by (simp add: fields)
        ultimately show ?thesis by simp
      next
        case (Some g)
        then have g: "g < ppage s" "pvirt s ! g = ?p" by (simp_all add: lk)
        with nq have gf: "g \<noteq> f" by auto
        with g have "lookup_in_mem s' ?p = Some g" by (simp add: lk' fields)
        then have "vword s' b = mem s' ! (g * ?S + ?k)" by (simp add: vword_def fields)
        moreover from Some have "vword s b = mem s ! (g * ?S + ?k)" by (simp add: vword_def)
        moreover from fc(4) [OF g(1) gf k] have "mem s' ! (g * ?S + ?k) = mem s ! (g * ?S + ?k)"
          by (simp add: fields)
        ultimately show ?thesis by simp
      qed
    qed
  qed
qed

lemma update_le_all:
  "\<forall>j<n. xs ! j \<le> t \<Longrightarrow> length xs = n \<Longrightarrow> \<forall>j<n. xs[i := t] ! j \<le> (t::int)"
  by (cases "i < length xs") (auto simp: nth_list_update list_update_beyond)

lemma real_address_stamps_ok:
  assumes ra: "real_address s a d = Inr (s', idx)" and wf: "wf s" and st: "stamps_ok s"
  shows "stamps_ok s'"
  using ra wf_len [OF wf]
proof (cases rule: real_addressE)
  case (hit i)
  from wf have len: "length (ptime s) = ppage s" "length (tlbtime s) = tlb s"
    by (simp_all add: wf_def)
  from st have "\<forall>f<ppage s. ptime s ! f \<le> timestamp s + 1" "\<forall>i<tlb s. tlbtime s ! i \<le> timestamp s + 1"
    by (auto simp: stamps_ok_def intro: order_trans)
  with hit(7) len show ?thesis by (simp add: stamps_ok_def update_le_all)
next
  case (resident f k r2)
  from wf have len: "length (ptime s) = ppage s" "length (tlbtime s) = tlb s"
    by (simp_all add: wf_def)
  from st have "\<forall>f<ppage s. ptime s ! f \<le> timestamp s + 1" "\<forall>i<tlb s. tlbtime s ! i \<le> timestamp s + 1"
    by (auto simp: stamps_ok_def intro: order_trans)
  with resident(9) len show ?thesis by (simp add: stamps_ok_def update_le_all)
next
  case (fault f r k r2 tt)
  from wf have len: "length (ptime s) = ppage s" "length (tlbtime s) = tlb s"
    by (simp_all add: wf_def)
  from st have le: "\<forall>f<ppage s. ptime s ! f \<le> timestamp s + 1"
    "\<forall>i<tlb s. tlbtime s ! i \<le> timestamp s + 1"
    by (auto simp: stamps_ok_def intro: order_trans)
  from fault(11) le(2) len have "\<forall>i<tlb s. tt ! i \<le> timestamp s + 1"
    by (auto simp: update_le_all)
  with fault(12) le(1) len show ?thesis by (simp add: stamps_ok_def update_le_all)
qed

lemma real_address_sized:
  assumes ra: "real_address s a d = Inr (s', idx)" and wf: "wf s" and sz: "sized s"
  shows "sized s'"
  using ra wf_len [OF wf]
proof (cases rule: real_addressE)
  case (hit i)
  with sz show ?thesis by (simp add: sized_def)
next
  case (resident f k r2)
  with sz show ?thesis by (simp add: sized_def)
next
  case (fault f r k r2 tt)
  with sz show ?thesis by (simp add: sized_def)
qed

lemma real_address_consistent:
  assumes "real_address s a d = Inr (s', idx)" "consistent s"
  shows "consistent s'"
proof -
  from assms(2) have wf: "wf s" and sz: "sized s" and co: "coherent s" and dk: "disk_ok s"
    and st: "stamps_ok s" by (simp_all add: consistent_def)
  from real_address_wf [OF assms(1) wf] real_address_sized [OF assms(1) wf sz]
    real_address_coherent [OF assms(1) wf co] real_address_disk_ok [OF assms(1) wf co sz dk]
    real_address_stamps_ok [OF assms(1) wf st]
  show ?thesis by (simp add: consistent_def)
qed

lemma page_in_range:
  assumes "p < V" "0 < (S::nat)" "a div S = p"
  shows "a < V * S"
  using assms by (metis div_less_iff_less_mult mult.commute)

text \<open>Storing a word in a resident, dirty page.\<close>

lemma store_word:
  fixes v :: word32
  assumes cs: "consistent s" and f: "f < ppage s" "pvirt s ! f = a div pagesize s"
    and df: "dirty s ! f" and S: "0 < pagesize s"
  defines "idx \<equiv> f * pagesize s + a mod pagesize s"
  defines "s' \<equiv> s\<lparr>mem := (mem s)[idx := v]\<rparr>"
  shows "consistent s'" and "vword s' a = v" and "\<And>b. b \<noteq> a \<Longrightarrow> vword s' b = vword s b"
proof -
  let ?S = "pagesize s"
  from cs have wf: "wf s" and co: "coherent s" and dk: "disk_ok s" and st: "stamps_ok s"
    and sz: "sized s"
    by (simp_all add: consistent_def)
  from wf sz have len: "length (mem s) = ppage s * ?S" "length (pvirt s) = ppage s"
    by (simp_all add: wf_def sized_def)
  from co have dist: "distinct (pvirt s)" by (simp add: coherent_def)
  have off: "a mod ?S < ?S" using S by simp
  from page_slot_less [OF f(1) off] len have idx: "idx < length (mem s)" by (simp add: idx_def)
  have lk: "lookup_in_mem s' p = lookup_in_mem s p" for p
    by (simp add: lookup_in_mem_def s'_def)
  have lks: "lookup_in_mem s p = Some g \<longleftrightarrow> g < ppage s \<and> pvirt s ! g = p" for p g
    using len dist by (intro lookup_in_mem_distinct)
  have other: "(mem s)[idx := v] ! (g * ?S + k) = mem s ! (g * ?S + k)"
    if "g \<noteq> f \<or> k \<noteq> a mod ?S" "k < ?S" for g k
  proof -
    from page_slot_inj [of g ?S k f "a mod ?S"] that off have "g * ?S + k \<noteq> idx"
      by (auto simp: idx_def)
    then show ?thesis by simp
  qed
  have "disk_ok s'"
    unfolding disk_ok_def
  proof (intro conjI allI impI)
    fix g assume "g < ppage s'"
    with dk show "pvirt s' ! g < vpage s'" by (simp add: disk_ok_def s'_def)
  next
    fix g k assume g: "g < ppage s'" "\<not> dirty s' ! g" "k < pagesize s'"
    with df have "g \<noteq> f" by (auto simp: s'_def)
    with other [of g k] g dk
    show "mem s' ! (g * pagesize s' + k) = disk s' ! (pvirt s' ! g * pagesize s' + k)"
      by (simp add: s'_def disk_ok_def)
  qed
  with wf co st sz show "consistent s'"
    by (simp add: consistent_def s'_def wf_def coherent_def stamps_ok_def sized_def)
  from f have "lookup_in_mem s (a div ?S) = Some f" by (simp add: lks)
  with idx show "vword s' a = v" by (simp add: vword_def lk) (simp add: s'_def idx_def)
  show "vword s' b = vword s b" if ne: "b \<noteq> a" for b
  proof (cases "lookup_in_mem s (b div ?S)")
    case None
    then show ?thesis by (simp add: vword_def lk) (simp add: s'_def)
  next
    case (Some g)
    then have g: "g < ppage s" "pvirt s ! g = b div ?S" by (simp_all add: lks)
    have "g \<noteq> f \<or> b mod ?S \<noteq> a mod ?S"
    proof (rule ccontr)
      assume "\<not> (g \<noteq> f \<or> b mod ?S \<noteq> a mod ?S)"
      with g f have "b div ?S = a div ?S" "b mod ?S = a mod ?S" by simp_all
      then have "b = a" by (metis div_mult_mod_eq)
      with ne show False by simp
    qed
    from other [OF this] S Some show ?thesis
      by (simp add: vword_def lk) (simp add: s'_def)
  qed
qed

lemma readInt_vword:
  assumes rd: "readInt s a = Inr (s', v)" and cs: "consistent s"
  shows "consistent s'" and "a < vpage s * pagesize s" and "v = vword s a"
    and "\<And>b. b < vpage s * pagesize s \<Longrightarrow> vword s' b = vword s b"
    and "vpage s' = vpage s \<and> pagesize s' = pagesize s"
proof -
  from cs have wf: "wf s" and co: "coherent s" and dk: "disk_ok s" and sz: "sized s"
    by (simp_all add: consistent_def)
  from rd obtain idx where ra: "real_address s a False = Inr (s', idx)"
    and v: "v = mem s' ! idx" by (rule readIntD)
  from real_address_consistent [OF ra cs] show cs': "consistent s'" .
  from real_address_config [OF ra wf] show cfg: "vpage s' = vpage s \<and> pagesize s' = pagesize s"
    by simp
  from real_address_config [OF ra wf] have cfg': "ppage s' = ppage s" by simp
  from real_address_idx [OF ra wf co sz] obtain f where f: "f < ppage s"
    "pvirt s' ! f = a div pagesize s" "idx = f * pagesize s + a mod pagesize s" "0 < pagesize s"
    by blast
  from cs' f(1) cfg cfg' have "pvirt s' ! f < vpage s" by (simp add: consistent_def disk_ok_def)
  from page_in_range [OF this f(4)] f(2) show a: "a < vpage s * pagesize s" by simp
  show vw: "vword s' b = vword s b" if "b < vpage s * pagesize s" for b
    using ra wf co sz dk that by (rule real_address_vword)
  from cs' have "length (pvirt s') = ppage s'" "distinct (pvirt s')"
    by (simp_all add: consistent_def wf_def coherent_def)
  from lookup_in_mem_distinct [OF this, of "a div pagesize s" f] f cfg'
  have "lookup_in_mem s' (a div pagesize s) = Some f" by simp
  then have "vword s' a = mem s' ! idx" using cfg f(3) by (simp add: vword_def)
  with v vw [OF a] show "v = vword s a" by simp
qed

lemma writeInt_vword:
  assumes wr: "writeInt s a v = Inr s'" and cs: "consistent s"
  shows "consistent s'" and "a < vpage s * pagesize s" and "vword s' a = v"
    and "\<And>b. b < vpage s * pagesize s \<Longrightarrow> b \<noteq> a \<Longrightarrow> vword s' b = vword s b"
    and "vpage s' = vpage s \<and> pagesize s' = pagesize s"
    and "page_dirty s' (a div pagesize s)"
proof -
  from cs have wf: "wf s" and co: "coherent s" and dk: "disk_ok s" and sz: "sized s"
    by (simp_all add: consistent_def)
  from wr obtain s1 idx where ra: "real_address s a True = Inr (s1, idx)"
    and s': "s' = s1\<lparr>mem := (mem s1)[idx := v]\<rparr>" by (rule writeIntD)
  from real_address_consistent [OF ra cs] have cs1: "consistent s1" .
  from real_address_config [OF ra wf]
  have cfg: "vpage s1 = vpage s" "pagesize s1 = pagesize s" "ppage s1 = ppage s" by simp_all
  from cfg s' show "vpage s' = vpage s \<and> pagesize s' = pagesize s" by simp
  from real_address_idx [OF ra wf co sz] obtain f where f: "f < ppage s"
    "pvirt s1 ! f = a div pagesize s" "idx = f * pagesize s + a mod pagesize s" "0 < pagesize s"
    "dirty s1 ! f"
    by blast
  from cs1 f(1) cfg have "pvirt s1 ! f < vpage s" by (simp add: consistent_def disk_ok_def)
  from page_in_range [OF this f(4)] f(2) show a: "a < vpage s * pagesize s" by simp
  have f1: "f < ppage s1" "pvirt s1 ! f = a div pagesize s1" "0 < pagesize s1"
    using f cfg by simp_all
  have s'': "s' = s1\<lparr>mem := (mem s1)[f * pagesize s1 + a mod pagesize s1 := v]\<rparr>"
    using s' f(3) cfg by simp
  note sw = store_word [OF cs1 f1(1,2) f(5) f1(3), where v = v, folded s'']
  from sw(1) show cs': "consistent s'" .
  from sw(2) show "vword s' a = v" .
  show "vword s' b = vword s b" if "b < vpage s * pagesize s" "b \<noteq> a" for b
    using sw(3) [OF that(2)] real_address_vword [OF ra wf co sz dk that(1)] by simp
  from cs' have "length (pvirt s') = ppage s'" "distinct (pvirt s')"
    by (simp_all add: consistent_def wf_def coherent_def)
  from lookup_in_mem_distinct [OF this, of "a div pagesize s" f] f cfg s'
  have "lookup_in_mem s' (a div pagesize s) = Some f" by simp
  with f(5) s' show "page_dirty s' (a div pagesize s)" by (simp add: page_dirty_def)
qed

lemma consistent_createVM_model:
  assumes "T \<le> P" "P \<le> V" and fit: "int V * int S * 4 \<le> 2147483647"
  shows "consistent (createVM_model V P S T pa ta)"
proof -
  from assms(2) have "int P * int S \<le> int V * int S" by (intro mult_right_mono) simp_all
  with fit have fitP: "int P * int S * 4 \<le> 2147483647" by simp
  have sz: "sized (createVM_model V P S T pa ta)"
    using assms(2) fit createVM_model_mem [OF fitP] createVM_model_disk [OF fit]
    by (simp add: sized_def)
  have "disk_ok (createVM_model V P S T pa ta)"
    unfolding disk_ok_def
  proof (intro conjI allI impI)
    fix f assume "f < ppage (createVM_model V P S T pa ta)"
    with assms show "pvirt (createVM_model V P S T pa ta) ! f < vpage (createVM_model V P S T pa ta)"
      by (simp add: createVM_model_def)
  next
    fix f k
    assume f: "f < ppage (createVM_model V P S T pa ta)"
      and k: "k < pagesize (createVM_model V P S T pa ta)"
    then have f': "f < P" "k < S" by simp_all
    with assms have "f < V" by simp
    from page_slot_less [OF f'] page_slot_less [OF this f'(2)] f' wrap_id [OF fit] wrap_id [OF fitP]
    show "mem (createVM_model V P S T pa ta) ! (f * pagesize (createVM_model V P S T pa ta) + k) =
          disk (createVM_model V P S T pa ta) !
            (pvirt (createVM_model V P S T pa ta) ! f * pagesize (createVM_model V P S T pa ta) + k)"
      by (simp add: createVM_model_def)
  qed
  moreover have "stamps_ok (createVM_model V P S T pa ta)"
    by (simp add: stamps_ok_def createVM_model_def)
  ultimately show ?thesis
    using assms sz by (simp add: consistent_def wf_createVM_model coherent_createVM_model)
qed

lemma exec_consistent:
  assumes "exec s x = Inr s'" "consistent s"
  shows "consistent s'"
proof (cases x)
  case (Read b)
  with assms(1) obtain v where "readInt s b = Inr (s', v)" by (auto split: sum.splits)
  from readInt_vword(1) [OF this assms(2)] show ?thesis .
next
  case (Write b v)
  with assms(1) have "writeInt s b v = Inr s'" by simp
  from writeInt_vword(1) [OF this assms(2)] show ?thesis .
qed

lemma run_consistent: "run s xs = Inr s' \<Longrightarrow> consistent s \<Longrightarrow> consistent s'"
proof (induction xs arbitrary: s)
  case Nil
  then show ?case by simp
next
  case (Cons x xs)
  from Cons.prems(1) obtain s1 where e: "exec s x = Inr s1" and r: "run s1 xs = Inr s'"
    by (auto split: sum.splits)
  from exec_consistent [OF e Cons.prems(2)] Cons.IH [OF r] show ?case by simp
qed

lemma exec_vword:
  assumes e: "exec s x = Inr s'" and cs: "consistent s"
    and nw: "\<not> writes_to a x" and a: "a < vpage s * pagesize s"
  shows "vword s' a = vword s a"
proof (cases x)
  case (Read b)
  with e obtain v where "readInt s b = Inr (s', v)" by (auto split: sum.splits)
  from readInt_vword(4) [OF this cs a] show ?thesis .
next
  case (Write b v)
  with e have w: "writeInt s b v = Inr s'" by simp
  from nw Write have "a \<noteq> b" by simp
  from writeInt_vword(4) [OF w cs a this] show ?thesis .
qed

lemma run_vword:
  "run s xs = Inr s' \<Longrightarrow> consistent s \<Longrightarrow> \<forall>x\<in>set xs. \<not> writes_to a x \<Longrightarrow>
     a < vpage s * pagesize s \<Longrightarrow> vword s' a = vword s a"
proof (induction xs arbitrary: s)
  case Nil
  then show ?case by simp
next
  case (Cons x xs)
  from Cons.prems(1) obtain s1 where e: "exec s x = Inr s1" and r: "run s1 xs = Inr s'"
    by (auto split: sum.splits)
  from Cons.prems(2) have wf: "wf s" by (simp add: consistent_def)
  from exec_config [OF e wf] Cons.prems(4) have a1: "a < vpage s1 * pagesize s1" by simp
  from Cons.prems(3) have nw: "\<not> writes_to a x" "\<forall>x\<in>set xs. \<not> writes_to a x" by simp_all
  from exec_vword [OF e Cons.prems(2) nw(1) Cons.prems(4)]
    Cons.IH [OF r exec_consistent [OF e Cons.prems(2)] nw(2) a1]
  show ?case by simp
qed

text \<open>The step that evicts a dirty page writes it to disk.\<close>

lemma real_address_evicts_dirty:
  assumes ra: "real_address s a d = Inr (s', idx)" and cs: "consistent s"
    and pd: "page_dirty s p" and ev: "lookup_in_mem s' p = None"
  shows "dc s' = dc s + 1"
proof -
  from cs have wf: "wf s" and co: "coherent s" by (simp_all add: consistent_def)
  from wf have len: "length (pvirt s) = ppage s" by (simp add: wf_def)
  from pd obtain g where g: "lookup_in_mem s p = Some g" "dirty s ! g"
    by (auto simp: page_dirty_def split: option.splits)
  then have g': "g < ppage s" "pvirt s ! g = p" by (simp_all add: lookup_in_mem_Some)
  from ra len show ?thesis
  proof (cases rule: real_addressE)
    case (hit i)
    with ev g' show ?thesis by (auto simp: lookup_in_mem_None)
  next
    case (resident f k r2)
    with ev g' show ?thesis by (auto simp: lookup_in_mem_None)
  next
    case (fault f r k r2 tt)
    have "f = g"
    proof (rule ccontr)
      assume "f \<noteq> g"
      with fault(12) g' have "g < ppage s'" "pvirt s' ! g = p" by simp_all
      with ev show False by (auto simp: lookup_in_mem_None)
    qed
    with g(2) fault(12) show ?thesis by simp
  qed
qed

lemma exec_evicts_dirty:
  assumes e: "exec s x = Inr s'" and cs: "consistent s"
    and pd: "page_dirty s p" and ev: "lookup_in_mem s' p = None"
  shows "dc s' = dc s + 1"
  using e
proof (rule execE)
  fix s1 idx d
  assume ra: "real_address s (addr_of x) d = Inr (s1, idx)"
    and s': "s' = s1 \<or> (\<exists>v. s' = s1\<lparr>mem := (mem s1)[idx := v]\<rparr>)"
  from s' ev have "lookup_in_mem s1 p = None" by (auto simp: lookup_in_mem_def)
  from real_address_evicts_dirty [OF ra cs pd this] s' show ?thesis by auto
qed

lemma policy_pick_exists:
  assumes "0 < n" "alg \<noteq> 0 \<longrightarrow> (\<exists>i<n. stamps ! i < 2147483647)"
  shows "\<exists>k c'. policy_pick alg n c stamps k c'"
proof (cases "alg = 0")
  case True
  with assms(1) show ?thesis by (simp add: policy_pick_def)
next
  case False
  with assms(2) obtain i where "i < n" "stamps ! i < 2147483647" by blast
  from minindex_exists [OF this] False show ?thesis by (auto simp: policy_pick_def)
qed

lemma addtlb_ok:
  assumes "0 < tlb s" "tlbalg s \<noteq> 0 \<longrightarrow> (\<exists>i<tlb s. tlbtime s ! i < 2147483647)"
  shows "\<exists>s'. addtlb s f pte = Inr s' \<and> ppage s' = ppage s \<and> pagesize s' = pagesize s \<and>
           mem s' = mem s"
proof -
  from policy_pick_exists [OF assms] obtain k r
    where "policy_pick (tlbalg s) (tlb s) (rrt s) (tlbtime s) k r" by blast
  from choose_tlb_pick [OF this] show ?thesis by (simp add: addtlb_def)
qed

lemma flushtlb_ok:
  assumes "0 < tlb s" "tlbalg s \<noteq> 0 \<longrightarrow> (\<exists>i<tlb s. tlbtime s ! i < 2147483647)"
  shows "\<exists>s'. flushtlb s f pte = Inr s' \<and> ppage s' = ppage s \<and> pagesize s' = pagesize s \<and>
           mem s' = mem s"
proof (cases "find (\<lambda>i. ptlb s ! i = f) [0..<tlb s]")
  case None
  with addtlb_ok [OF assms] show ?thesis by (simp add: flushtlb_def)
next
  case (Some i)
  then show ?thesis by (simp add: flushtlb_def)
qed

lemma page_fault_ok:
  assumes P: "0 < ppage s" and lru: "palg s \<noteq> 0 \<longrightarrow> (\<exists>f<ppage s. ptime s ! f < 2147483647)"
    and len: "length (pvirt s) = ppage s"
    and dkb: "\<forall>f<ppage s. pvirt s ! f * pagesize s + pagesize s \<le> length (disk s)"
    and mb: "\<forall>f<ppage s. f * pagesize s + pagesize s \<le> length (mem s)"
    and pb: "pte * pagesize s + pagesize s \<le> length (disk s)"
    and T: "0 < tlb s" and tl: "tlbalg s \<noteq> 0 \<longrightarrow> (\<exists>i<tlb s. tlbtime s ! i < 2147483647)"
    and ov: "\<forall>f<ppage s. int (pvirt s ! f) * int (pagesize s) * 4 \<le> 2147483647 \<and>
                          int f * int (pagesize s) * 4 \<le> 2147483647"
      "int pte * int (pagesize s) * 4 \<le> 2147483647" "int (pagesize s) * 4 \<le> 2147483647"
      "int off * 4 \<le> 2147483647"
  shows "\<exists>s' idx. page_fault s pte off d = Inr (s', idx)"
proof -
  from policy_pick_exists [OF P lru] obtain f r
    where pk: "policy_pick (palg s) (ppage s) (rrp s) (ptime s) f r" by blast
  from policy_pick_less [OF pk] have f: "f < ppage s" .
  from choose_page_pick [OF pk] have cp: "choose_page s = Inr (s\<lparr>rrp := r\<rparr>, Some f)" .
  define s3 where "s3 = s\<lparr>rrp := r, pc := pc s + 1,
             dc := (if dirty s ! f then dc s + 1 else dc s),
             disk := fault_disk s f,
             pvirt := (pvirt s)[f := pte],
             ptime := (ptime s)[f := timestamp s],
             dirty := (dirty s)[f := False],
             mem := copy_words (mem s) (f * pagesize s) (fault_disk s f) (pte * pagesize s)
                      (pagesize s)\<rparr>"
  have "0 < tlb s3" "tlbalg s3 \<noteq> 0 \<longrightarrow> (\<exists>i<tlb s3. tlbtime s3 ! i < 2147483647)"
    using T tl by (simp_all add: s3_def)
  from flushtlb_ok [OF this, of f pte] obtain s4 where fl: "flushtlb s3 f pte = Inr s4"
    and p4: "ppage s4 = ppage s" "pagesize s4 = pagesize s" by (auto simp: s3_def)
  from f p4 obtain s5 where mk: "mark s4 f d = Inr s5" and p5: "pagesize s5 = pagesize s"
    by (auto simp: mark_def)
  from f dkb mb pb len have b: "\<not> length (disk s) < pvirt s ! f * pagesize s + pagesize s"
    "\<not> length (mem s) < f * pagesize s + pagesize s"
    "\<not> length (disk s) < pte * pagesize s + pagesize s" "(pvirt s)[f := pte] ! f = pte"
    by (simp_all add: not_less)
  from f ov have o: "\<not> 2147483647 < int (pvirt s ! f) * int (pagesize s) * 4"
    "\<not> 2147483647 < int f * int (pagesize s) * 4" "\<not> 2147483647 < int (pagesize s) * 4"
    "\<not> 2147483647 < int pte * int (pagesize s) * 4"
    "\<not> 2147483647 < int off * 4"
    by (auto simp: not_less)
  from o p5 have ma: "make_address s5 f off = Inr (f * pagesize s + off)"
    by (simp add: make_address_def)
  have "page_fault s pte off d = Inr (s5, f * pagesize s + off)"
    using cp b o fl mk ma
    by (auto simp: page_fault_def Let_def choose_page_pc s3_def fault_disk_def)
  then show ?thesis by blast
qed

lemma real_address_ok:
  assumes cs: "consistent s" and a: "a < vpage s * pagesize s"
    and ts: "timestamp s < 2147483647" and T: "0 < tlb s"
  shows "\<exists>s' idx. real_address s a d = Inr (s', idx)"
proof -
  from cs have wf: "wf s" and co: "coherent s" and dk: "disk_ok s" and st: "stamps_ok s"
    and sz: "sized s"
    by (simp_all add: consistent_def)
  from a have S: "0 < pagesize s" by (cases "pagesize s = 0") simp_all
  from co T have P: "0 < ppage s" by (auto simp: coherent_def)
  from sz have fit: "int (vpage s) * int (pagesize s) * 4 \<le> 2147483647"
    and PV: "ppage s \<le> vpage s" by (simp_all add: sized_def)
  define s1 where "s1 = s\<lparr>timestamp := timestamp s + 1\<rparr>"
  define pte where "pte = a div pagesize s"
  define off where "off = a mod pagesize s"
  from a S have pteV: "pte < vpage s" by (simp add: pte_def less_mult_imp_div_less)
  from S have offS: "off < pagesize s" by (simp add: off_def)
  from offsets_fit [OF pteV offS fit]
  have opte: "int pte * int (pagesize s) * 4 \<le> 2147483647" "int off * 4 \<le> 2147483647"
    "int (pagesize s) * 4 \<le> 2147483647" by simp_all
  have ofr: "int f * int (pagesize s) * 4 \<le> 2147483647" if "f < ppage s" for f
  proof -
    from that PV have "f < vpage s" by simp
    from offsets_fit [OF this offS fit] show ?thesis by simp
  qed
  obtain s2 r where lk: "lookup_in_tlb_and_mark s1 pte = (s2, r)"
    by (cases "lookup_in_tlb_and_mark s1 pte")
  show ?thesis
  proof (cases r)
    case (Some fr)
    with lk obtain i where "i < tlb s" "fr = ptlb s ! i"
      and s2: "s2 = s1\<lparr>tlbtime := (tlbtime s1)[i := timestamp s1]\<rparr>"
      by (auto simp: s1_def dest!: lookup_in_tlb_and_mark_Some)
    with co have fr: "fr < ppage s" by (simp add: coherent_def)
    then have "fr < ppage s2" by (simp add: s2 s1_def)
    then obtain s3 where mk: "mark s2 fr d = Inr s3" and p3: "pagesize s3 = pagesize s"
      by (auto simp: mark_def s2 s1_def)
    from ofr [OF fr] opte(2) p3 have "make_address s3 fr off = Inr (fr * pagesize s + off)"
      by (simp add: make_address_def)
    with lk Some ts S mk show ?thesis
      by (simp add: real_address_def Let_def s1_def pte_def off_def)
  next
    case None
    with lk have s2: "s2 = s1" by (simp add: lookup_in_tlb_and_mark_None)
    define s3 where "s3 = s\<lparr>timestamp := timestamp s + 1, tc := tc s + 1\<rparr>"
    from st T have t0: "tlbtime s ! 0 < 2147483647 \<and> 0 < tlb s" using ts
      by (auto simp: stamps_ok_def intro: le_less_trans)
    from st P have p0: "ptime s ! 0 < 2147483647 \<and> 0 < ppage s" using ts
      by (auto simp: stamps_ok_def intro: le_less_trans)
    show ?thesis
    proof (cases "lookup_in_mem s3 pte")
      case (Some f)
      then have f: "f < ppage s" by (simp add: lookup_in_mem_Some s3_def)
      then obtain s4 where mk: "mark s3 f d = Inr s4"
        and s4: "tlb s4 = tlb s" "tlbalg s4 = tlbalg s" "tlbtime s4 = tlbtime s"
          "pagesize s4 = pagesize s"
        by (auto simp: mark_def s3_def)
      have "0 < tlb s4" "tlbalg s4 \<noteq> 0 \<longrightarrow> (\<exists>i<tlb s4. tlbtime s4 ! i < 2147483647)"
        using t0 s4 by auto
      from addtlb_ok [OF this, of f pte] s4 obtain s5 where ad: "addtlb s4 f pte = Inr s5"
        and p5: "pagesize s5 = pagesize s" by auto
      from ofr [OF f] opte(2) p5 have "make_address s5 f off = Inr (f * pagesize s + off)"
        by (simp add: make_address_def)
      with lk None s2 Some mk ad ts S show ?thesis
        by (simp add: real_address_def Let_def s1_def s3_def pte_def off_def)
    next
      case None': None
      from wf sz have len: "length (pvirt s) = ppage s" "length (mem s) = ppage s * pagesize s"
        "length (disk s) = vpage s * pagesize s" by (simp_all add: wf_def sized_def)
      have slot: "p * pagesize s + pagesize s \<le> V * pagesize s" if "p < V" for p V
      proof -
        from that have "Suc p * pagesize s \<le> V * pagesize s" by (intro mult_le_mono1) simp
        then show ?thesis by simp
      qed
      have opv: "int (pvirt s ! f) * int (pagesize s) * 4 \<le> 2147483647" if "f < ppage s" for f
      proof -
        from dk that have "pvirt s ! f < vpage s" by (simp add: disk_ok_def)
        from offsets_fit [OF this offS fit] show ?thesis by simp
      qed
      have "\<exists>s' idx. page_fault s3 pte off d = Inr (s', idx)"
      proof (rule page_fault_ok)
        show "0 < ppage s3" using P by (simp add: s3_def)
        show "palg s3 \<noteq> 0 \<longrightarrow> (\<exists>f<ppage s3. ptime s3 ! f < 2147483647)"
          using p0 by (auto simp: s3_def)
        show "length (pvirt s3) = ppage s3" using len by (simp add: s3_def)
        show "\<forall>f<ppage s3. pvirt s3 ! f * pagesize s3 + pagesize s3 \<le> length (disk s3)"
          using dk len slot by (simp add: s3_def disk_ok_def)
        show "\<forall>f<ppage s3. f * pagesize s3 + pagesize s3 \<le> length (mem s3)"
          using len slot by (simp add: s3_def)
        show "pte * pagesize s3 + pagesize s3 \<le> length (disk s3)"
          using len slot [OF pteV] by (simp add: s3_def)
        show "0 < tlb s3" using T by (simp add: s3_def)
        show "tlbalg s3 \<noteq> 0 \<longrightarrow> (\<exists>i<tlb s3. tlbtime s3 ! i < 2147483647)"
          using t0 by (auto simp: s3_def)
        show "\<forall>f<ppage s3. int (pvirt s3 ! f) * int (pagesize s3) * 4 \<le> 2147483647 \<and>
                          int f * int (pagesize s3) * 4 \<le> 2147483647"
          using opv ofr by (simp add: s3_def)
        show "int pte * int (pagesize s3) * 4 \<le> 2147483647" using opte by (simp add: s3_def)
        show "int (pagesize s3) * 4 \<le> 2147483647" using opte by (simp add: s3_def)
        show "int off * 4 \<le> 2147483647" using opte by simp
      qed
      with lk None s2 None' ts S show ?thesis
        by (simp add: real_address_def Let_def s1_def s3_def pte_def off_def)
    qed
  qed
qed

lemma readInt_ok:
  assumes cs: "consistent s" and a: "a < vpage s * pagesize s"
    and ts: "timestamp s < 2147483647" and T: "0 < tlb s"
  shows "\<exists>s'. readInt s a = Inr (s', vword s a)"
proof -
  from cs have wf: "wf s" and co: "coherent s" and sz: "sized s"
    by (simp_all add: consistent_def)
  from real_address_ok [OF cs a ts T] obtain s' idx
    where ra: "real_address s a False = Inr (s', idx)" by blast
  from real_address_idx [OF ra wf co sz] have "idx < length (mem s')" by blast
  with ra have "readInt s a = Inr (s', mem s' ! idx)"
    by (simp add: readInt_def read_address_def)
  with readInt_vword(3) [OF this cs] show ?thesis by auto
qed

lemma real_address_tlb_pos:
  assumes "real_address s a d = Inr (s', idx)" "wf s"
  shows "0 < tlb s"
  using assms(1) wf_len [OF assms(2)]
  by (cases rule: real_addressE) auto

lemma upt_0_2: "[0..<2] = [0, Suc 0]"
  by (simp add: upt_rec)

section \<open>The worked example\<close>

text \<open>
  Claim C2. After \<open>createVM (4, 2, 2, 1, round-robin, round-robin)\<close> frame 0 holds page
  0, frame 1 holds page 1 and the TLB maps page 0 to frame 0. \<open>writeInt (0, 7)\<close> hits the
  TLB and leaves the counters at zero with frame 0 dirty; \<open>writeInt (2, 9)\<close> misses the
  TLB, finds page 1 in frame 1 and dirties it; \<open>readInt (4)\<close> is a page fault whose
  round-robin victim is frame 0, written to disk slot 0; \<open>readInt (0)\<close> is a page fault
  whose victim is frame 1, written to disk slot 1, and returns 7. The counters, in the
  order page faults, TLB misses, disk writes, end at 2, 3, 2.
\<close>

theorem end_to_end_example:
  "observe_after (createVM_model 4 2 2 1 0 0) []
     (\<lambda>s. (counters s, pvirt s, dirty s, ptlb s, vtlb s)) =
     Some ((0, 0, 0), [0, 1], [False, False], [0], [0]) \<and>
   observe_after (createVM_model 4 2 2 1 0 0) [Write 0 7]
     (\<lambda>s. (counters s, pvirt s, dirty s, ptlb s, vtlb s)) =
     Some ((0, 0, 0), [0, 1], [True, False], [0], [0]) \<and>
   observe_after (createVM_model 4 2 2 1 0 0) [Write 0 7, Write 2 9]
     (\<lambda>s. (counters s, pvirt s, dirty s, ptlb s, vtlb s)) =
     Some ((0, 1, 0), [0, 1], [True, True], [1], [1]) \<and>
   observe_after (createVM_model 4 2 2 1 0 0) [Write 0 7, Write 2 9, Read 4]
     (\<lambda>s. (counters s, pvirt s, dirty s, ptlb s, vtlb s, disk s)) =
     Some ((1, 2, 1), [2, 1], [False, True], [0], [2], [7, 0, 0, 0, 0, 0, 0, 0]) \<and>
   observe_after (createVM_model 4 2 2 1 0 0) [Write 0 7, Write 2 9, Read 4, Read 0]
     (\<lambda>s. (counters s, pvirt s, dirty s, ptlb s, vtlb s, disk s)) =
     Some ((2, 3, 2), [2, 0], [False, False], [1], [0], [7, 0, 9, 0, 0, 0, 0, 0]) \<and>
   observe_after (createVM_model 4 2 2 1 0 0) [Write 0 7, Write 2 9, Read 4]
     (\<lambda>s. value_of (readInt s 0)) = Some (Some 7)"
  by code_simp

section \<open>Addresses outside the virtual memory\<close>

text \<open>
  Claim C5. An access at an address \<open>\<ge> sizeVM * pageSize\<close> should end in a fatal path
  with a diagnostic. The code has no such test: in the memory of the worked example, which
  has 8 words, each of the four accessors at address 8 goes through the translation as a
  page fault on page 4 and copies a page from behind the end of the disk array, which the
  model reports as \<open>DiskOutOfBounds\<close>. Where the page number happens to be in the TLB
  (a handle with more TLB slots than virtual pages, which \<open>createVM\<close> does not refuse),
  the access at address 1 of a one-word memory returns a word and faults nowhere.
\<close>

theorem out_of_range_not_checked:
  "readInt (createVM_model 4 2 2 1 0 0) 8 = Inl DiskOutOfBounds \<and>
   readFloat (createVM_model 4 2 2 1 0 0) 8 = Inl DiskOutOfBounds \<and>
   writeInt (createVM_model 4 2 2 1 0 0) 8 5 = Inl DiskOutOfBounds \<and>
   writeFloat (createVM_model 4 2 2 1 0 0) 8 5 = Inl DiskOutOfBounds \<and>
   value_of (readInt (createVM_model 1 2 1 2 0 0) 1) = Some 0"
  by code_simp

section \<open>Construction\<close>

text \<open>
  Claim C6. \<open>createVM\<close> should return \<open>NULL\<close> when \<open>sizePM \<ge> sizeVM\<close>, when
  \<open>pageSize\<close> is not a power of two, or when \<open>sizeVM * pageSize\<close> exceeds \<open>2^32\<close>.
  The code returns a handle in each of the three cases, and the handle is usable: a read
  at address 0 returns the zero word.
\<close>

theorem createVM_accepts_invalid:
  "createVM 2 2 2 1 0 0 \<noteq> None \<and>
   createVM 4 2 3 1 0 0 \<noteq> None \<and>
   createVM 1073741824 2 8 1 0 0 \<noteq> None \<and>
   (case createVM 2 2 2 1 0 0 of None \<Rightarrow> False | Some h \<Rightarrow> value_of (readInt h 0) = Some 0) \<and>
   (case createVM 4 2 3 1 0 0 of None \<Rightarrow> False | Some h \<Rightarrow> value_of (readInt h 0) = Some 0)"
  by (simp add: createVM_def, code_simp)

section \<open>The counters\<close>

text \<open>
  Claim C10. In every state that a client program reaches from a fresh handle, the number
  of disk writes is at most the number of page faults, which is at most the number of TLB
  misses.
\<close>

theorem counter_ordering:
  "run (createVM_model sizeVM sizePM pageSize sizeTLB pageReplAlg tlbReplAlg) xs = Inr s \<Longrightarrow>
     dc s \<le> pc s \<and> pc s \<le> tc s"
  using run_counters [OF _ wf_createVM_model]
  by (force simp: createVM_model_def)

text \<open>The worked example reaches the counters 2, 3, 2.\<close>

theorem counter_ordering_witness:
  "\<exists>s. run (createVM_model 4 2 2 1 0 0) [Write 0 7, Write 2 9, Read 4, Read 0] = Inr s \<and>
       counters s = (2, 3, 2) \<and> dc s \<le> pc s \<and> pc s \<le> tc s"
proof -
  have "observe_after (createVM_model 4 2 2 1 0 0) [Write 0 7, Write 2 9, Read 4, Read 0]
          counters = Some (2, 3, 2)"
    by code_simp
  then obtain s where r: "run (createVM_model 4 2 2 1 0 0) [Write 0 7, Write 2 9, Read 4, Read 0] = Inr s"
    and c: "counters s = (2, 3, 2)"
    by (auto simp: observe_after_def split: sum.splits)
  from counter_ordering [OF r] r c show ?thesis by blast
qed

section \<open>Round robin\<close>



section \<open>Least recently used\<close>

text \<open>
  Claim C8. Over \<open>n\<close> slots, the LRU selection \<open>minindex\<close> returns the slot with the
  minimum timestamp, and the lowest such slot when several share the minimum (given that
  some timestamp is below the start value 2147483647 of the scan). With LRU page
  replacement, a page fault evicts that frame of the page table.
\<close>

theorem lru_victim_selection:
  "(j < n \<and> p ! j < 2147483647 \<longrightarrow> (\<exists>k. minindex p n = Some k \<and> lowest_min_index p n k)) \<and>
   (pageReplAlg \<noteq> 0 \<and>
    run (createVM_model sizeVM sizePM pageSize sizeTLB pageReplAlg tlbReplAlg) xs = Inr s \<and>
    real_address s a d = Inr (s', idx) \<and> pc s' \<noteq> pc s \<longrightarrow>
      (\<exists>f. minindex (ptime s) sizePM = Some f \<and> lowest_min_index (ptime s) sizePM f \<and>
           pvirt s' = (pvirt s)[f := a div pageSize]))"
proof -
  have 1: "\<exists>k. minindex p n = Some k \<and> lowest_min_index p n k"
    if "j < n" "p ! j < 2147483647"
  proof -
    from that obtain k where "minindex p n = Some k" using minindex_exists by blast
    then show ?thesis by (simp add: minindex_lowest_min)
  qed
  let ?s0 = "createVM_model sizeVM sizePM pageSize sizeTLB pageReplAlg tlbReplAlg"
  have 2: "\<exists>f. minindex (ptime s) sizePM = Some f \<and> lowest_min_index (ptime s) sizePM f \<and>
           pvirt s' = (pvirt s)[f := a div pageSize]"
    if lru: "pageReplAlg \<noteq> 0" and run: "run ?s0 xs = Inr s"
      and ra: "real_address s a d = Inr (s', idx)" and pf: "pc s' \<noteq> pc s"
  proof -
    have wf0: "wf ?s0" by (rule wf_createVM_model)
    from run_wf [OF run wf0] have wf: "wf s" .
    from run_config [OF run wf0]
    have cfg: "ppage s = sizePM" "pagesize s = pageSize" "palg s = pageReplAlg"
      by simp_all
    from ra wf pf obtain f r where pk: "policy_pick (palg s) (ppage s) (rrp s) (ptime s) f r"
      and pv: "pvirt s' = (pvirt s)[f := a div pagesize s]"
      by (rule fault_victim)
    from pk cfg lru have "minindex (ptime s) sizePM = Some f" by (simp add: policy_pick_def)
    with pv cfg show ?thesis by (simp add: minindex_lowest_min)
  qed
  from 1 2 show ?thesis by blast
qed

text \<open>
  A tie between slots 1 and 2, resolved to slot 1; and a page fault after frame 0 was
  touched, which evicts frame 1.
\<close>

theorem lru_victim_selection_witness:
  "(1::nat) < 3 \<and> [3, 1, 1] ! 1 < (2147483647::int) \<and> minindex [3, 1, 1] 3 = Some 1 \<and>
   (\<exists>s s' idx. run (createVM_model 4 2 2 1 1 0) [Write 0 7] = Inr s \<and>
      real_address s 4 False = Inr (s', idx) \<and> pc s' \<noteq> pc s \<and>
      ptime s = [1, 0] \<and> minindex (ptime s) 2 = Some 1 \<and> pvirt s = [0, 1] \<and> pvirt s' = [0, 2])"
proof -
  have "observe_after (createVM_model 4 2 2 1 1 0) [Write 0 7]
          (\<lambda>s. (pc s, ptime s, pvirt s,
             case real_address s 4 False of Inl e \<Rightarrow> None | Inr (s', idx) \<Rightarrow> Some (pc s'))) =
        Some (0, [1, 0], [0, 1], Some 1)"
    by code_simp
  then obtain s s' idx where r: "run (createVM_model 4 2 2 1 1 0) [Write 0 7] = Inr s"
    and ra: "real_address s 4 False = Inr (s', idx)"
    and v: "pc s = 0" "ptime s = [1, 0]" "pvirt s = [0, 1]" "pc s' = 1"
    by (auto simp: observe_after_def split: sum.splits)
  from v have ne: "pc s' \<noteq> pc s" by simp
  have h: "(1::nat) < 3 \<and> [3, 1, 1] ! 1 < (2147483647::int)" by simp
  from lru_victim_selection [of 1 3 "[3, 1, 1]" 1 4 2 2 1 0 "[Write 0 7]" s 4 False s' idx] h r ra ne
  obtain k f where k: "minindex [3, 1, 1] 3 = Some k" "lowest_min_index [3, 1, 1] 3 k"
    and f: "minindex (ptime s) 2 = Some f" "pvirt s' = (pvirt s)[f := 4 div 2]"
    by auto
  have m1: "minindex [3, 1, 1] 3 = Some 1" by code_simp
  have m2: "minindex (ptime s) 2 = Some 1" unfolding v(2) by code_simp
  from f m2 have "f = 1" by simp
  with f(2) v(3) have pv: "pvirt s' = [0, 2]" by simp
  from h have h1: "(1::nat) < 3" and h2: "[3, 1, 1] ! 1 < (2147483647::int)" by simp_all
  from h1 h2 m1 r ra ne v(2) m2 v(3) pv show ?thesis by blast
qed

section \<open>Installing a translation in the TLB\<close>

text \<open>
  Claim C4. Installing a translation for a frame should first look for a TLB slot that
  already points at the frame and overwrite that slot's page and its timestamp in place,
  and only otherwise pick a victim slot by the TLB's policy. \<open>flushtlb\<close> overwrites the
  page of the slot it finds and leaves its timestamp as it was; \<open>addtlb\<close>, which it
  calls when it finds none, does set the timestamp. With three frames, two TLB slots and
  an LRU TLB: after reading page 1 and faulting page 5 into frame 0, slot 0 maps page 5
  with the timestamp 0 of the initial entry, not the clock value 2; the next installation
  (page 2) therefore evicts page 5, the most recently used translation, and reading page
  5 again is a third TLB miss.
\<close>

theorem flushtlb_keeps_stale_timestamp:
  "observe_after (createVM_model 8 3 1 2 0 1) [Read 1]
     (\<lambda>s. (timestamp s, pvirt s, ptlb s, vtlb s, tlbtime s)) =
     Some (1, [0, 1, 2], [0, 1], [0, 1], [0, 1]) \<and>
   observe_after (createVM_model 8 3 1 2 0 1) [Read 1, Read 5]
     (\<lambda>s. (timestamp s, pvirt s, ptlb s, vtlb s, tlbtime s)) =
     Some (2, [5, 1, 2], [0, 1], [5, 1], [0, 1]) \<and>
   observe_after (createVM_model 8 3 1 2 0 1) [Read 1, Read 5, Read 2]
     (\<lambda>s. (timestamp s, pvirt s, ptlb s, vtlb s, tlbtime s)) =
     Some (3, [5, 1, 2], [2, 1], [2, 1], [3, 1]) \<and>
   observe_after (createVM_model 8 3 1 2 0 1) [Read 1, Read 5, Read 2, Read 5] counters =
     Some (1, 3, 0) \<and>
   observe_after (createVM_model 8 3 1 2 0 1) [Read 1]
     (\<lambda>s. case flushtlb (s\<lparr>timestamp := 2\<rparr>) 0 5 of
             Inl e \<Rightarrow> None | Inr s' \<Rightarrow> Some (ptlb s', vtlb s', tlbtime s')) =
     Some (Some ([0, 1], [5, 1], [0, 1]))"
  by code_simp

section \<open>The TLB and the page table\<close>

text \<open>
  Claim C1 says that in every reachable state a TLB hit for a page returns a frame whose
  page-table entry holds that page. \<open>createVM\<close> accepts more TLB slots than frames and
  initialises slot \<open>i\<close> to map page \<open>i\<close> to frame \<open>i\<close> all the same: with one frame
  and two TLB slots, the fresh handle answers a lookup for page 1 with frame 1, and the
  page table has the single frame 0, which holds page 0.
\<close>

theorem tlb_page_table_coherence_counterexample:
  "snd (lookup_in_tlb_and_mark (createVM_model 8 1 1 2 0 0) 1) = Some 1 \<and>
   ppage (createVM_model 8 1 1 2 0 0) = 1 \<and>
   pvirt (createVM_model 8 1 1 2 0 0) = [0]"
  by code_simp

text \<open>
  Claim C1, amended. On a handle with no more TLB slots than frames, in every state that a
  client reaches, a TLB hit for a page returns a frame whose page-table entry holds that
  page. When a translation evicts page \<open>p\<close> from frame \<open>g\<close>, a TLB lookup for \<open>p\<close> in
  the new state misses, and a TLB slot maps the frame's new page to \<open>g\<close>.
\<close>

theorem tlb_page_table_coherence:
  "(sizeTLB \<le> sizePM \<and>
    run (createVM_model sizeVM sizePM pageSize sizeTLB pageReplAlg tlbReplAlg) xs = Inr s \<and>
    lookup_in_tlb_and_mark s vpn = (s1, Some f) \<longrightarrow> f < sizePM \<and> pvirt s ! f = vpn) \<and>
   (sizeTLB \<le> sizePM \<and>
    run (createVM_model sizeVM sizePM pageSize sizeTLB pageReplAlg tlbReplAlg) xs = Inr s \<and>
    real_address s a d = Inr (s', idx) \<and> g < sizePM \<and> pvirt s ! g = p \<and> pvirt s' ! g \<noteq> p \<longrightarrow>
      snd (lookup_in_tlb_and_mark s' p) = None \<and>
      (\<exists>i < sizeTLB. ptlb s' ! i = g \<and> vtlb s' ! i = pvirt s' ! g))"
proof -
  let ?s0 = "createVM_model sizeVM sizePM pageSize sizeTLB pageReplAlg tlbReplAlg"
  have wf0: "wf ?s0" by (rule wf_createVM_model)
  have 1: "f < sizePM \<and> pvirt s ! f = vpn"
    if le: "sizeTLB \<le> sizePM" and run: "run ?s0 xs = Inr s"
      and lk: "lookup_in_tlb_and_mark s vpn = (s1, Some f)"
  proof -
    from run_coherent [OF run wf0 coherent_createVM_model [OF le]] have "coherent s" .
    from coherent_tlb_hit [OF this lk] run_config [OF run wf0] show ?thesis by simp
  qed
  have 2: "snd (lookup_in_tlb_and_mark s' p) = None \<and>
      (\<exists>i < sizeTLB. ptlb s' ! i = g \<and> vtlb s' ! i = pvirt s' ! g)"
    if le: "sizeTLB \<le> sizePM" and run: "run ?s0 xs = Inr s"
      and ra: "real_address s a d = Inr (s', idx)"
      and g: "g < sizePM" "pvirt s ! g = p" "pvirt s' ! g \<noteq> p"
  proof -
    from run_coherent [OF run wf0 coherent_createVM_model [OF le]] have co: "coherent s" .
    from run_wf [OF run wf0] have wf: "wf s" .
    from run_config [OF run wf0] have cfg: "ppage s = sizePM" "tlb s = sizeTLB" by simp_all
    from real_address_coherent [OF ra wf co] have co': "coherent s'" .
    from wf have len: "length (pvirt s) = ppage s" "length (vtlb s) = tlb s"
      "length (ptlb s) = tlb s" by (simp_all add: wf_def)
    from ra wf_len [OF wf] show ?thesis
    proof (cases rule: real_addressE)
      case (hit i)
      with g show ?thesis by simp
    next
      case (resident f k r2)
      with g show ?thesis by simp
    next
      case (fault f r k r2 tt)
      from fault(12) g len cfg have fg: "f = g" by (cases "f = g") simp_all
      have "\<forall>h<ppage s'. pvirt s' ! h \<noteq> p"
      proof (intro allI impI notI)
        fix h assume h: "h < ppage s'" "pvirt s' ! h = p"
        with g fg have "h \<noteq> g" by auto
        with h fault(12) fg have "pvirt s ! h = pvirt s ! g" using g by simp
        moreover from h fault(12) have "h < ppage s" by simp
        ultimately have "h = g" using co g(1) cfg len
          by (simp add: coherent_def nth_eq_iff_index_eq)
        with \<open>h \<noteq> g\<close> show False by simp
      qed
      with co' have miss: "snd (lookup_in_tlb_and_mark s' p) = None"
        by (rule coherent_not_resident_miss)
      from fault(10,12) fg len cfg g(1)
      have "k < sizeTLB \<and> ptlb s' ! k = g \<and> vtlb s' ! k = pvirt s' ! g" by simp
      with miss show ?thesis by blast
    qed
  qed
  show ?thesis
    by (rule conjI; rule impI; elim conjE; (rule 1 | rule 2); assumption)
qed

text \<open>
  In the worked example, after the two writes the TLB maps page 1 to frame 1; the read of
  address 4 then evicts page 0 from frame 0.
\<close>

theorem tlb_page_table_coherence_witness:
  "(1::nat) \<le> 2 \<and>
   (\<exists>s s1 s' idx.
      run (createVM_model 4 2 2 1 0 0) [Write 0 7, Write 2 9] = Inr s \<and>
      lookup_in_tlb_and_mark s 1 = (s1, Some 1) \<and> pvirt s ! 1 = 1 \<and>
      real_address s 4 False = Inr (s', idx) \<and>
      (0::nat) < 2 \<and> pvirt s ! 0 = 0 \<and> pvirt s' ! 0 \<noteq> 0 \<and>
      snd (lookup_in_tlb_and_mark s' 0) = None \<and>
      (\<exists>i<1. ptlb s' ! i = 0 \<and> vtlb s' ! i = pvirt s' ! 0))"
proof -
  have "observe_after (createVM_model 4 2 2 1 0 0) [Write 0 7, Write 2 9]
          (\<lambda>s. (snd (lookup_in_tlb_and_mark s 1), pvirt s,
             case real_address s 4 False of Inl e \<Rightarrow> None | Inr (s', idx) \<Rightarrow> Some (pvirt s'))) =
        Some (Some 1, [0, 1], Some [2, 1])"
    by code_simp
  then obtain s s' idx where r: "run (createVM_model 4 2 2 1 0 0) [Write 0 7, Write 2 9] = Inr s"
    and lk: "snd (lookup_in_tlb_and_mark s 1) = Some 1"
    and ra: "real_address s 4 False = Inr (s', idx)"
    and pv: "pvirt s = [0, 1]" "pvirt s' = [2, 1]"
    by (auto simp: observe_after_def split: sum.splits)
  from lk obtain s1 where lk': "lookup_in_tlb_and_mark s 1 = (s1, Some 1)"
    by (cases "lookup_in_tlb_and_mark s 1") simp
  have le: "(1::nat) \<le> 2" by simp
  have g: "(0::nat) < 2" "pvirt s ! 0 = 0" "pvirt s' ! 0 \<noteq> 0" using pv by simp_all
  from tlb_page_table_coherence [of 1 2 4 2 0 0 "[Write 0 7, Write 2 9]" s 1 s1 1 4 False s' idx 0 0]
    le r lk' ra g
  have c1: "pvirt s ! 1 = 1"
    and c2: "snd (lookup_in_tlb_and_mark s' 0) = None"
    and c3: "\<exists>i<1. ptlb s' ! i = 0 \<and> vtlb s' ! i = pvirt s' ! 0"
    by simp_all
  from le r lk' c1 ra g c2 c3 show ?thesis by blast
qed

section \<open>The warm path\<close>

text \<open>
  Claim C9 says that on a fresh handle every sequence of accesses in the pages below
  \<open>sizeTLB\<close> produces no TLB miss and no page fault and keeps the initial TLB. Two
  handles on which such an access has no defined outcome: with two TLB slots and one
  frame, a read in page 1 hits the TLB for frame 1 and \<open>mark\<close> indexes the one-entry
  tables at 1; with pages of \<open>2^29\<close> words, two frames and two TLB slots, a read of the
  first word of page 1 hits the TLB and \<open>make_address\<close> computes the byte offset
  \<open>1 * 2^29 * 4\<close> in \<open>int\<close>.
\<close>

theorem zero_cost_warm_path_counterexample:
  "run (createVM_model 4 1 2 2 0 0) [Read 2] = Inl IndexOutOfBounds \<and>
   run (createVM_model 3 2 536870912 2 0 0) [Read 536870912] = Inl SignedOverflow"
proof -
  have "run (createVM_model 4 1 2 2 0 0) [Read 2] = Inl IndexOutOfBounds"
    by code_simp
  moreover
  have "run (createVM_model 3 2 536870912 2 0 0) [Read 536870912] = Inl SignedOverflow"
    by (simp add: readInt_def read_address_def real_address_def lookup_in_tlb_and_mark_def
        mark_def make_address_def createVM_model_def Let_def upt_0_2)
  ultimately show ?thesis by simp
qed

text \<open>
  Claim C9, amended. On a fresh handle with no more TLB slots than frames, a positive page
  size and a memory whose byte offsets fit in an \<open>int\<close>
  (\<open>sizePM * pageSize * 4 \<le> 2^31 - 1\<close>), every sequence of at most \<open>2^31 - 1\<close> reads and
  writes (the range of the logical clock) whose addresses lie in the pages below
  \<open>sizeTLB\<close> runs to the end without a TLB miss, a page fault or a disk write, and
  leaves the initial TLB translations in place.
\<close>

theorem zero_cost_warm_path:
  assumes "sizeTLB \<le> sizePM" and "0 < pageSize"
    and "int sizePM * int pageSize * 4 \<le> 2147483647"
    and "\<forall>x\<in>set xs. addr_of x div pageSize < sizeTLB"
    and "int (length xs) \<le> 2147483647"
  shows "\<exists>s. run (createVM_model sizeVM sizePM pageSize sizeTLB pageReplAlg tlbReplAlg) xs = Inr s \<and>
           tc s = 0 \<and> pc s = 0 \<and> dc s = 0 \<and>
           ptlb s = [0..<sizeTLB] \<and> vtlb s = [0..<sizeTLB]"
proof -
  let ?s0 = "createVM_model sizeVM sizePM pageSize sizeTLB pageReplAlg tlbReplAlg"
  from assms(1,2,3) have "warm sizeTLB ?s0" by (rule warm_createVM_model)
  moreover from assms(4) have "\<forall>x\<in>set xs. addr_of x div pagesize ?s0 < sizeTLB" by simp
  moreover from assms(5) have "timestamp ?s0 + int (length xs) \<le> 2147483647" by simp
  ultimately obtain s where "run ?s0 xs = Inr s" "warm sizeTLB s"
    using warm_run by blast
  then show ?thesis by (auto simp: warm_def)
qed

text \<open>Three frames, two TLB slots, five accesses in pages 0 and 1.\<close>

theorem zero_cost_warm_path_witness:
  "(2::nat) \<le> 3 \<and> (0::nat) < 2 \<and> int 3 * int 2 * 4 \<le> 2147483647 \<and>
   addr_of (Write 0 7) div 2 < 2 \<and> addr_of (Read 3) div 2 < 2 \<and>
   addr_of (Write 2 9) div 2 < 2 \<and> addr_of (Read 1) div 2 < 2 \<and> addr_of (Read 0) div 2 < 2 \<and>
   int (length [Write 0 7, Read 3, Write 2 9, Read 1, Read 0]) \<le> 2147483647 \<and>
   (\<exists>s. run (createVM_model 4 3 2 2 0 1) [Write 0 7, Read 3, Write 2 9, Read 1, Read 0] = Inr s \<and>
        tc s = 0 \<and> pc s = 0 \<and> dc s = 0 \<and> ptlb s = [0..<2] \<and> vtlb s = [0..<2])"
proof -
  have h: "(2::nat) \<le> 3" "(0::nat) < 2" "int 3 * int 2 * 4 \<le> 2147483647"
    "\<forall>x\<in>set [Write 0 7, Read 3, Write 2 9, Read 1, Read 0]. addr_of x div 2 < 2"
    "int (length [Write 0 7, Read 3, Write 2 9, Read 1, Read 0]) \<le> 2147483647"
    by simp_all
  from zero_cost_warm_path [OF h, of 4 0 1]
  have "\<exists>s. run (createVM_model 4 3 2 2 0 1) [Write 0 7, Read 3, Write 2 9, Read 1, Read 0] = Inr s \<and>
        tc s = 0 \<and> pc s = 0 \<and> dc s = 0 \<and> ptlb s = [0..<2] \<and> vtlb s = [0..<2]" .
  then show ?thesis by simp
qed

section \<open>The round trip of a dirty page\<close>

text \<open>
  Claim C3 says that on every valid configuration a word written to an in-range address
  is read back after its page was evicted and faulted in again. Two configurations that
  satisfy the documented constraints (fewer frames than pages, a page size that is a power
  of two, at most \<open>2^32\<close> words) on which the write itself has no defined outcome: with
  \<open>2^29 + 1\<close> pages of one word, a write to the last word faults page \<open>2^29\<close> in, and the
  page-in computes the byte offset \<open>2^29 * 1 * 4\<close> in \<open>int\<close>; with \<open>2^16\<close> pages of
  \<open>2^16\<close> words, the disk size \<open>2^32\<close> wraps to zero in \<open>unsigned int\<close>, and the
  page-in of page 2 reads from an empty disk array.
\<close>

theorem dirty_page_round_trip_counterexample:
  "writeInt (createVM_model 536870913 2 1 1 0 0) 536870912 7 = Inl SignedOverflow \<and>
   writeInt (createVM_model 65536 2 65536 1 0 0) 131072 7 = Inl DiskOutOfBounds"
  by (simp add: writeInt_def write_address_def real_address_def lookup_in_tlb_and_mark_def
      lookup_in_mem_def page_fault_def choose_page_def createVM_model_def Let_def upt_0_2)

text \<open>
  Claim C3, amended. On a handle with \<open>sizeTLB \<le> sizePM \<le> sizeVM\<close> whose byte offsets
  fit in an \<open>int\<close> (\<open>sizeVM * pageSize * 4 \<le> 2^31 - 1\<close>), in any state a client has
  reached: write \<open>v\<close> to address \<open>a\<close>; let further accesses, none of them a write to
  \<open>a\<close>, run until one of them evicts the page of \<open>a\<close> while it is dirty; let more
  such accesses run. The evicting access increments the disk writes by exactly one and
  leaves \<open>v\<close> in the disk slot of \<open>a\<close>, and a read of \<open>a\<close> then returns \<open>v\<close>
  (the read does return, the logical clock being below its last value).
\<close>

theorem dirty_page_round_trip:
  assumes cfg: "sizeTLB \<le> sizePM" "sizePM \<le> sizeVM"
    "int sizeVM * int pageSize * 4 \<le> 2147483647"
    and reach: "run (createVM_model sizeVM sizePM pageSize sizeTLB pageReplAlg tlbReplAlg) xs = Inr s"
    and wr: "writeInt s a v = Inr s1"
    and r1: "run s1 ys = Inr s2" "\<forall>y\<in>set ys. \<not> writes_to a y"
    and pd: "page_dirty s2 (a div pageSize)"
    and ev: "exec s2 e = Inr s3" "\<not> writes_to a e" "lookup_in_mem s3 (a div pageSize) = None"
    and r2: "run s3 zs = Inr s4" "\<forall>z\<in>set zs. \<not> writes_to a z"
    and ts: "timestamp s4 < 2147483647"
  shows "dc s3 = dc s2 + 1 \<and> disk s3 ! a = v \<and> (\<exists>s5. readInt s4 a = Inr (s5, v))"
proof -
  let ?s0 = "createVM_model sizeVM sizePM pageSize sizeTLB pageReplAlg tlbReplAlg"
  have wf0: "wf ?s0" by (rule wf_createVM_model)
  from consistent_createVM_model [OF cfg] have cs0: "consistent ?s0" .
  from run_consistent [OF reach cs0] have cs: "consistent s" .
  then have wf: "wf s" by (simp add: consistent_def)
  from run_config [OF reach wf0] have c: "pagesize s = pageSize" "vpage s = sizeVM" by simp_all
  from wr obtain t idx where ra: "real_address s a True = Inr (t, idx)" by (rule writeIntD)
  from real_address_tlb_pos [OF ra wf] have T: "0 < tlb s" .
  note w = writeInt_vword [OF wr cs]
  from w(1) have cs1: "consistent s1" and wf1: "wf s1" by (simp_all add: consistent_def)
  from w(2,5) have a1: "a < vpage s1 * pagesize s1" by simp
  from exec_config [of s "Write a v" s1] wr wf have c1: "tlb s1 = tlb s" by simp
  from run_consistent [OF r1(1) cs1] have cs2: "consistent s2" and wf2: "wf s2"
    by (simp_all add: consistent_def)
  from run_vword [OF r1(1) cs1 r1(2) a1] w(3) have v2: "vword s2 a = v" by simp
  from run_config [OF r1(1) wf1] a1 w(5) c c1
  have c2: "pagesize s2 = pageSize" "vpage s2 = sizeVM" "tlb s2 = tlb s"
    and a2: "a < vpage s2 * pagesize s2" by simp_all
  from exec_consistent [OF ev(1) cs2] have cs3: "consistent s3" and wf3: "wf s3"
    by (simp_all add: consistent_def)
  from exec_evicts_dirty [OF ev(1) cs2 pd ev(3)] have dc: "dc s3 = dc s2 + 1" .
  from exec_vword [OF ev(1) cs2 ev(2) a2] v2 have v3: "vword s3 a = v" by simp
  from exec_config [OF ev(1) wf2] c2 a2
  have c3: "pagesize s3 = pageSize" "vpage s3 = sizeVM" "tlb s3 = tlb s"
    and a3: "a < vpage s3 * pagesize s3" by simp_all
  from v3 ev(3) c3 have dk: "disk s3 ! a = v" by (simp add: vword_def)
  from run_consistent [OF r2(1) cs3] have cs4: "consistent s4" .
  from run_vword [OF r2(1) cs3 r2(2) a3] v3 have v4: "vword s4 a = v" by simp
  from run_config [OF r2(1) wf3] c3 a3 T
  have a4: "a < vpage s4 * pagesize s4" and T4: "0 < tlb s4" by simp_all
  from readInt_ok [OF cs4 a4 ts T4] v4 have "\<exists>s5. readInt s4 a = Inr (s5, v)" by simp
  with dc dk show ?thesis by simp
qed

text \<open>
  The worked example: 7 is written to address 0, the read of address 4 evicts page 0, and
  the read of address 0 faults it back in and returns 7.
\<close>

theorem dirty_page_round_trip_witness:
  "(1::nat) \<le> 2 \<and> (2::nat) \<le> 4 \<and> int 4 * int 2 * 4 \<le> 2147483647 \<and>
   (\<exists>s s1 s2 s3 s5.
      run (createVM_model 4 2 2 1 0 0) [] = Inr s \<and>
      writeInt s 0 7 = Inr s1 \<and>
      run s1 [Write 2 9] = Inr s2 \<and> \<not> writes_to 0 (Write 2 9) \<and>
      page_dirty s2 (0 div 2) \<and>
      exec s2 (Read 4) = Inr s3 \<and> \<not> writes_to 0 (Read 4) \<and> lookup_in_mem s3 (0 div 2) = None \<and>
      run s3 [] = Inr s3 \<and> timestamp s3 < 2147483647 \<and>
      dc s2 = 0 \<and> dc s3 = dc s2 + 1 \<and> disk s3 ! 0 = 7 \<and> pc s3 = 1 \<and>
      readInt s3 0 = Inr (s5, 7) \<and> pc s5 = 2)"
proof -
  have "(case writeInt (createVM_model 4 2 2 1 0 0) 0 7 of Inl e \<Rightarrow> None | Inr s1 \<Rightarrow>
          (case run s1 [Write 2 9] of Inl e \<Rightarrow> None | Inr s2 \<Rightarrow>
             (case exec s2 (Read 4) of Inl e \<Rightarrow> None | Inr s3 \<Rightarrow>
                Some (page_dirty s2 0, dc s2, lookup_in_mem s3 0, timestamp s3, pc s3,
                      case readInt s3 0 of Inl e \<Rightarrow> None | Inr (s5, w) \<Rightarrow> Some (pc s5))))) =
        Some (True, 0, None, 3, 1, Some 2)"
    by code_simp
  then obtain s1 s2 s3 s5 w where
    wr: "writeInt (createVM_model 4 2 2 1 0 0) 0 7 = Inr s1"
    and r1: "run s1 [Write 2 9] = Inr s2"
    and pd: "page_dirty s2 0" and d2: "dc s2 = 0"
    and ev: "exec s2 (Read 4) = Inr s3" "lookup_in_mem s3 0 = None"
    and t3: "timestamp s3 = 3" and p3: "pc s3 = 1"
    and rd: "readInt s3 0 = Inr (s5, w)" and p5: "pc s5 = 2"
    by (auto split: sum.splits option.splits)
  have h: "(1::nat) \<le> 2" "(2::nat) \<le> 4" "int 4 * int 2 * 4 \<le> 2147483647" by simp_all
  have r0: "run (createVM_model 4 2 2 1 0 0) [] = Inr (createVM_model 4 2 2 1 0 0)" by simp
  have r3: "run s3 [] = Inr s3" by simp
  have nw: "\<not> writes_to 0 (Write 2 9)" "\<not> writes_to 0 (Read 4)" by simp_all
  have pd': "page_dirty s2 (0 div 2)" and ev': "lookup_in_mem s3 (0 div 2) = None"
    using pd ev(2) by simp_all
  have ts: "timestamp s3 < 2147483647" using t3 by simp
  from dirty_page_round_trip [OF h r0 wr r1 _ pd' ev(1) nw(2) ev' r3 _ ts] nw(1)
  have c: "dc s3 = dc s2 + 1" "disk s3 ! 0 = 7" "\<exists>s5. readInt s3 0 = Inr (s5, 7)"
    by simp_all
  with rd have rd': "readInt s3 0 = Inr (s5, 7)" by auto
  from h r0 wr r1 nw pd' ev(1) ev' r3 ts d2 c(1,2) p3 rd' p5 show ?thesis by blast
qed

end
